theory Spec2Isabelle
  imports Main "HOL-Library.Word" "HOL-Library.Char_ord" "HOL-Library.List_Lexorder"
    "HOL-Library.Product_Lexorder" "HOL-Library.Multiset" "HOL-Library.AList"
begin

unbundle bit_operations_syntax

section \<open>Grammar model (src/grammar/grammar.ts)\<close>

text \<open>
  A \<open>Term\<close> object carries a name, a flag bitset and an optional tag. The source compares
  terms by object identity; the term set creates one object per symbol, so identity is
  modelled by equality of the fields. Names are strings compared unit by unit
  (JavaScript's \<open><\<close> on strings), here the lexicographic order on character lists.
\<close>

record Term =
  name :: string
  flags :: nat
  tag :: "string option"

definition TERMINAL :: nat where "TERMINAL = 1"

definition terminal :: "Term \<Rightarrow> bool" where
  "terminal t = (flags t AND TERMINAL > 0)"

datatype Assoc = Left | Right

record Precedence =
  associativity :: "Assoc option"
  group :: string
  precedence :: int

record Rule =
  rule_name :: Term
  parts :: "Term list"
  rule_precedence :: "Precedence list list"

text \<open>\<open>Precedence.eq\<close>: all three fields agree.\<close>

definition prec_eq :: "Precedence \<Rightarrow> Precedence \<Rightarrow> bool" where
  "prec_eq a b = (associativity a = associativity b \<and> group a = group b \<and> precedence a = precedence b)"

text \<open>\<open>Rule.precAt\<close>: the precedences attached to a position, none beyond the array.\<close>

definition precAt :: "Rule \<Rightarrow> nat \<Rightarrow> Precedence list" where
  "precAt r i = (if i \<ge> length (rule_precedence r) then [] else rule_precedence r ! i)"

section \<open>Items, actions and states (src/grammar/automaton.ts)\<close>

record Pos =
  rule :: Rule
  pos :: nat
  ahead :: Term
  prec :: "Precedence list"

text \<open>
  An action is a shift to a target state or a reduction by a rule. A shift refers to its
  target state object; states are identified by their \<open>id\<close>, which is what the model stores.
\<close>

datatype Action = Shift Term nat | Reduce Term Rule

fun action_term :: "Action \<Rightarrow> Term" where
  "action_term (Shift t _) = t"
| "action_term (Reduce t _) = t"

fun is_Shift :: "Action \<Rightarrow> bool" where
  "is_Shift (Shift _ _) = True"
| "is_Shift (Reduce _ _) = False"

text \<open>\<open>Shift.eq\<close> and \<open>Reduce.eq\<close>: same class and same target, respectively same rule.\<close>

fun action_eq :: "Action \<Rightarrow> Action \<Rightarrow> bool" where
  "action_eq (Shift _ s) (Shift _ s') = (s = s')"
| "action_eq (Reduce _ r) (Reduce _ r') = (r = r')"
| "action_eq _ _ = False"

record State =
  state_id :: nat
  state_set :: "Pos list"
  terminals :: "Action list"
  terminalPrec :: "Precedence list list"
  goto :: "Action list"
  ambiguous :: bool

text \<open>
  Errors of the automaton builder: the conflict error thrown by \<open>addAction\<close> (with the
  kind of the existing action, the item and the terminal that its message prints), and
  the \<open>TypeError\<close> that JavaScript raises on a property access on \<open>undefined\<close>.
\<close>

datatype error = ConflictError bool Pos Term | TypeError

subsection \<open>State.addAction\<close>

text \<open>
  The inner loop over the new precedence list, for one existing action with precedence
  list \<open>prev\<close>. Its four exits: \<open>Skip\<close> is \<open>continue check\<close> on a negative level,
  \<open>Override\<close> the splice of the existing action, \<open>Keep\<close> the \<open>return true\<close> that
  drops the new action, \<open>Undecided\<close> the end of the list.
\<close>

datatype verdict = Skip | Override | Keep | Undecided

fun check_prec :: "Action \<Rightarrow> Precedence list \<Rightarrow> Precedence list \<Rightarrow> verdict" where
  "check_prec action prev [] = Undecided"
| "check_prec action prev (p # ps) =
    (case find (\<lambda>x. group x = group p) prev of
       None \<Rightarrow> check_prec action prev ps
     | Some match \<Rightarrow>
         if precedence p < 0 then Skip
         else
           let override = precedence match - precedence p;
               override = (if override = 0 \<and> is_Shift action \<and> associativity p \<noteq> None
                           then (if associativity p = Some Left then 1 else - 1)
                           else override)
           in if override > 0 then Override
              else if override < 0 then Keep
              else check_prec action prev ps)"

text \<open>\<open>splice(i, 1)\<close>: remove the element at index \<open>i\<close>, nothing when out of range.\<close>

definition splice1 :: "nat \<Rightarrow> 'a list \<Rightarrow> 'a list" where
  "splice1 i xs = take i xs @ drop (Suc i) xs"

text \<open>
  The outer \<open>check\<close> loop, from index \<open>i\<close>. The state is passed and returned; the result is
  the thrown error or the returned boolean with the updated state. Reading
  \<open>terminalPrec[i]\<close> beyond the array gives \<open>undefined\<close>, and \<open>prev.find\<close> then raises as
  soon as the new precedence list has an entry.
\<close>

function addAction_loop ::
  "nat \<Rightarrow> State \<Rightarrow> Action \<Rightarrow> Precedence list \<Rightarrow> Pos option \<Rightarrow> error + (bool \<times> State)" where
  "addAction_loop i st val pr at =
    (if i < length (terminals st) then
       let action = terminals st ! i in
       if action_term action = action_term val then
         if action_eq action val then Inr (True, st)
         else
           let st1 = st\<lparr>ambiguous := True\<rparr> in
           if pr \<noteq> [] \<and> \<not> i < length (terminalPrec st1) then Inl TypeError
           else
             (case check_prec action (if i < length (terminalPrec st1) then terminalPrec st1 ! i else []) pr of
                Skip \<Rightarrow> addAction_loop (Suc i) st1 val pr at
              | Override \<Rightarrow>
                  addAction_loop i
                    (st1\<lparr>terminals := splice1 i (terminals st1),
                         terminalPrec := splice1 i (terminalPrec st1)\<rparr>) val pr at
              | Keep \<Rightarrow> Inr (True, st1)
              | Undecided \<Rightarrow>
                  (case at of
                     None \<Rightarrow> Inr (False, st1)
                   | Some p \<Rightarrow> Inl (ConflictError (is_Shift action) p (action_term action))))
       else addAction_loop (Suc i) st val pr at
     else Inr (True, st\<lparr>terminals := terminals st @ [val],
                        terminalPrec := terminalPrec st @ [pr]\<rparr>))"
  by pat_completeness auto
termination
  by (relation "measure (\<lambda>(i, st, val, pr, at). length (terminals st) - i)")
     (auto simp: splice1_def)

definition addAction :: "State \<Rightarrow> Action \<Rightarrow> Precedence list \<Rightarrow> Pos option \<Rightarrow> error + (bool \<times> State)" where
  "addAction st val pr at = addAction_loop 0 st val pr at"

declare addAction_loop.simps [simp del]

text \<open>
  The entry that decides a conflict: the first entry \<open>p\<close> of the new precedence list whose
  group occurs in the existing list, paired with the entry \<open>prev.find\<close> returns for it.
\<close>

fun first_match :: "Precedence list \<Rightarrow> Precedence list \<Rightarrow> (Precedence \<times> Precedence) option" where
  "first_match prev [] = None"
| "first_match prev (p # ps) =
    (case find (\<lambda>x. group x = group p) prev of
       None \<Rightarrow> first_match prev ps
     | Some m \<Rightarrow> Some (m, p))"

text \<open>Concrete states used to run \<open>addAction\<close>.\<close>

definition ex_term :: Term where
  "ex_term = \<lparr>name = ''x'', flags = 1, tag = None\<rparr>"

definition ex_rule :: Rule where
  "ex_rule = \<lparr>rule_name = \<lparr>name = ''E'', flags = 0, tag = None\<rparr>, parts = [ex_term],
     rule_precedence = []\<rparr>"

definition ex_state :: "int \<Rightarrow> State" where
  "ex_state lvl = \<lparr>state_id = 0, state_set = [], terminals = [Shift ex_term 1],
     terminalPrec = [[\<lparr>associativity = None, group = ''g'', precedence = lvl\<rparr>]],
     goto = [], ambiguous = False\<rparr>"

definition ex_prec :: "Assoc option \<Rightarrow> int \<Rightarrow> Precedence list" where
  "ex_prec a lvl = [\<lparr>associativity = a, group = ''g'', precedence = lvl\<rparr>]"

subsection \<open>Properties of \<open>addAction\<close>\<close>

lemma check_prec_Skip:
  "first_match prev pr = Some (m, p) \<Longrightarrow> precedence p < 0 \<Longrightarrow> check_prec a prev pr = Skip"
proof (induction pr)
  case Nil
  then show ?case by simp
next
  case (Cons q qs)
  show ?case
  proof (cases "find (\<lambda>x. group x = group q) prev")
    case None
    with Cons show ?thesis by simp
  next
    case (Some m')
    with Cons.prems have "m' = m" "q = p" by simp_all
    with Some Cons.prems show ?thesis by simp
  qed
qed

lemma check_prec_Override:
  assumes "first_match prev pr = Some (m, p)" and "0 \<le> precedence p"
    and "precedence m > precedence p \<or>
         (precedence m = precedence p \<and> is_Shift a \<and> associativity p = Some Left)"
  shows "check_prec a prev pr = Override"
  using assms(1)
proof (induction pr)
  case Nil
  then show ?case by simp
next
  case (Cons q qs)
  show ?case
  proof (cases "find (\<lambda>x. group x = group q) prev")
    case None
    with Cons show ?thesis by simp
  next
    case (Some m')
    with Cons.prems have "m' = m" "q = p" by simp_all
    with Some assms(2,3) show ?thesis by (auto simp: Let_def)
  qed
qed

lemma check_prec_Keep:
  assumes "first_match prev pr = Some (m, p)" and "0 \<le> precedence p"
    and "precedence m < precedence p \<or>
         (precedence m = precedence p \<and> is_Shift a \<and> associativity p = Some Right)"
  shows "check_prec a prev pr = Keep"
  using assms(1)
proof (induction pr)
  case Nil
  then show ?case by simp
next
  case (Cons q qs)
  show ?case
  proof (cases "find (\<lambda>x. group x = group q) prev")
    case None
    with Cons show ?thesis by simp
  next
    case (Some m')
    with Cons.prems have "m' = m" "q = p" by simp_all
    with Some assms(2,3) show ?thesis by (auto simp: Let_def)
  qed
qed

text \<open>The loop passes over actions on other terminals.\<close>

lemma addAction_loop_skip:
  assumes "i \<le> k" "k \<le> length (terminals st)"
    and "\<forall>j. i \<le> j \<and> j < k \<longrightarrow> action_term (terminals st ! j) \<noteq> action_term val"
  shows "addAction_loop i st val pr at = addAction_loop k st val pr at"
  using assms
proof (induction "k - i" arbitrary: i)
  case 0
  then show ?case by simp
next
  case (Suc n)
  then have "i < k" by simp
  with Suc.prems have ne: "action_term (terminals st ! i) \<noteq> action_term val"
    and lt: "i < length (terminals st)"
    by auto
  have "addAction_loop i st val pr at = addAction_loop (Suc i) st val pr at"
    using ne lt by (subst addAction_loop.simps) (simp add: Let_def)
  also have "\<dots> = addAction_loop k st val pr at"
    using Suc by (intro Suc.hyps(1)) auto
  finally show ?case .
qed

lemma addAction_loop_end:
  "length (terminals st) \<le> i \<Longrightarrow>
   addAction_loop i st val pr at =
     Inr (True, st\<lparr>terminals := terminals st @ [val], terminalPrec := terminalPrec st @ [pr]\<rparr>)"
  by (subst addAction_loop.simps) simp

lemma addAction_loop_absent:
  assumes "\<forall>j. i \<le> j \<and> j < length (terminals st) \<longrightarrow>
             action_term (terminals st ! j) \<noteq> action_term val"
  shows "addAction_loop i st val pr at =
     Inr (True, st\<lparr>terminals := terminals st @ [val], terminalPrec := terminalPrec st @ [pr]\<rparr>)"
proof (cases "i \<le> length (terminals st)")
  case True
  then have "addAction_loop i st val pr at = addAction_loop (length (terminals st)) st val pr at"
    using assms by (intro addAction_loop_skip) auto
  then show ?thesis by (simp add: addAction_loop_end)
next
  case False
  then show ?thesis by (simp add: addAction_loop_end)
qed

text \<open>One round of the loop at a different action on the same terminal.\<close>

lemma addAction_loop_at:
  assumes "i < length (terminals st)" and "length (terminalPrec st) = length (terminals st)"
    and "action_term (terminals st ! i) = action_term val"
    and "\<not> action_eq (terminals st ! i) val"
  shows "addAction_loop i st val pr at =
    (case check_prec (terminals st ! i) (terminalPrec st ! i) pr of
       Skip \<Rightarrow> addAction_loop (Suc i) (st\<lparr>ambiguous := True\<rparr>) val pr at
     | Override \<Rightarrow>
         addAction_loop i (st\<lparr>ambiguous := True, terminals := splice1 i (terminals st),
                                terminalPrec := splice1 i (terminalPrec st)\<rparr>) val pr at
     | Keep \<Rightarrow> Inr (True, st\<lparr>ambiguous := True\<rparr>)
     | Undecided \<Rightarrow>
         (case at of None \<Rightarrow> Inr (False, st\<lparr>ambiguous := True\<rparr>)
          | Some p \<Rightarrow>
              Inl (ConflictError (is_Shift (terminals st ! i)) p (action_term (terminals st ! i)))))"
  using assms by (subst addAction_loop.simps) (simp add: Let_def split: verdict.splits)

lemma splice1_nth:
  "j < length xs - 1 \<Longrightarrow> splice1 i xs ! j = (if j < i then xs ! j else xs ! Suc j)"
  by (auto simp: splice1_def nth_append min_def)

lemma length_splice1: "i < length xs \<Longrightarrow> length (splice1 i xs) = length xs - 1"
  by (simp add: splice1_def)

text \<open>Entries that tie with the existing list are passed over.\<close>

lemma check_prec_ties:
  assumes "\<forall>q\<in>set pre. \<forall>mq. find (\<lambda>x. group x = group q) prev = Some mq \<longrightarrow>
             0 \<le> precedence q \<and> precedence mq = precedence q \<and>
             \<not> (is_Shift a \<and> associativity q \<noteq> None)"
  shows "check_prec a prev (pre @ rest) = check_prec a prev rest"
  using assms
proof (induction pre)
  case Nil
  show ?case by simp
next
  case (Cons q qs)
  have "\<forall>q\<in>set qs. \<forall>mq. find (\<lambda>x. group x = group q) prev = Some mq \<longrightarrow>
             0 \<le> precedence q \<and> precedence mq = precedence q \<and>
             \<not> (is_Shift a \<and> associativity q \<noteq> None)"
    using Cons.prems by (meson list.set_intros(2))
  then have ih: "check_prec a prev (qs @ rest) = check_prec a prev rest"
    by (rule Cons.IH)
  show ?case
  proof (cases "find (\<lambda>x. group x = group q) prev")
    case None
    with ih show ?thesis by simp
  next
    case (Some mq)
    have "q \<in> set (q # qs)" by simp
    with Cons.prems Some have "0 \<le> precedence q" "precedence mq = precedence q"
      "\<not> (is_Shift a \<and> associativity q \<noteq> None)" by blast+
    with Some ih show ?thesis by (auto simp: Let_def)
  qed
qed

text \<open>
  A table with two actions on the terminal \<open>x\<close>, as \<open>addAction\<close> itself builds it: a shift
  with the precedences \<open>g/5, h/1\<close>, and a reduction by \<open>F\<close> with \<open>h/-1, g/3\<close> that the
  negative level lets in.
\<close>

definition ex_lvl :: "string \<Rightarrow> int \<Rightarrow> Precedence" where
  "ex_lvl g n = \<lparr>associativity = None, group = g, precedence = n\<rparr>"

definition ex_reduce :: "string \<Rightarrow> Action" where
  "ex_reduce n = Reduce ex_term (ex_rule\<lparr>rule_name := \<lparr>name = n, flags = 0, tag = None\<rparr>\<rparr>)"

definition ex_shift_state :: "Precedence list \<Rightarrow> State" where
  "ex_shift_state ps = \<lparr>state_id = 0, state_set = [], terminals = [Shift ex_term 1],
     terminalPrec = [ps], goto = [], ambiguous = False\<rparr>"

definition ex_two :: State where
  "ex_two = (ex_shift_state [ex_lvl ''g'' 5, ex_lvl ''h'' 1])
     \<lparr>terminals := [Shift ex_term 1, ex_reduce ''F''],
      terminalPrec := [[ex_lvl ''g'' 5, ex_lvl ''h'' 1], [ex_lvl ''h'' (- 1), ex_lvl ''g'' 3]],
      ambiguous := True\<rparr>"

text \<open>
  Claim C1, as stated, fails in two ways. First, the table may hold several actions on
  the terminal, and each is compared in turn: on \<open>ex_two\<close> a new reduction by \<open>G\<close> with
  \<open>g/4\<close> removes the shift (existing level 5 against 4) but is then dropped against the
  reduction by \<open>F\<close> (existing level 3 against 4), so \<open>A\<close> is removed and \<open>A'\<close> is not
  installed. Second, of several entries whose groups match, the first that does not tie
  decides: against a shift with \<open>g/5, h/1\<close> the new list \<open>g/4, h/2\<close> has the entry \<open>h/2\<close>
  above the existing level 1, yet the new action is installed and the shift removed.
\<close>

theorem addAction_precedence_counterexample:
  "addAction (ex_shift_state [ex_lvl ''g'' 5, ex_lvl ''h'' 1]) (ex_reduce ''F'')
      [ex_lvl ''h'' (- 1), ex_lvl ''g'' 3] None = Inr (True, ex_two)
   \<and> addAction ex_two (ex_reduce ''G'') [ex_lvl ''g'' 4] None =
       Inr (True, ex_two\<lparr>terminals := [ex_reduce ''F''],
                          terminalPrec := [[ex_lvl ''h'' (- 1), ex_lvl ''g'' 3]]\<rparr>)
   \<and> ex_reduce ''G'' \<notin> set [ex_reduce ''F'']
   \<and> addAction (ex_shift_state [ex_lvl ''g'' 5, ex_lvl ''h'' 1]) (ex_reduce ''G'')
       [ex_lvl ''g'' 4, ex_lvl ''h'' 2] None =
       Inr (True, (ex_shift_state [ex_lvl ''g'' 5, ex_lvl ''h'' 1])
          \<lparr>terminals := [ex_reduce ''G''],
           terminalPrec := [[ex_lvl ''g'' 4, ex_lvl ''h'' 2]], ambiguous := True\<rparr>)"
  by (simp add: addAction_def addAction_loop.simps ex_two_def ex_shift_state_def ex_reduce_def
      ex_lvl_def ex_term_def ex_rule_def splice1_def Let_def)

text \<open>
  Claim C1, amended. A new action \<open>A'\<close> arrives for a terminal whose only action in the
  table is a different action \<open>A\<close>, at index \<open>i\<close>. Let \<open>p\<close> be the first entry of the new
  precedence list that shares its group with an entry \<open>m\<close> of the existing list and does
  not tie with it (every earlier entry either shares no group, or has a level that is not
  negative and equals that of its match, while \<open>A\<close> is no shift or the entry has no
  associativity), and let the level of \<open>p\<close> not be negative. If the existing level is greater, or the levels are equal, \<open>A\<close> is
  a shift and \<open>p\<close> is left-associative, then \<open>A\<close> is removed and \<open>A'\<close> installed: the table is
  the old one without index \<open>i\<close>, followed by \<open>A'\<close>. If the existing level is smaller, or
  the levels are equal, \<open>A\<close> is a shift and \<open>p\<close> is right-associative, then \<open>A'\<close> is dropped
  and the table is left as it was. Both return \<open>true\<close> and mark the state ambiguous.
\<close>

theorem addAction_precedence_outcome:
  assumes inv: "length (terminalPrec st) = length (terminals st)"
    and i: "i < length (terminals st)"
    and only: "\<forall>j<length (terminals st). j \<noteq> i \<longrightarrow>
                 action_term (terminals st ! j) \<noteq> action_term A'"
    and A: "terminals st ! i = A" "action_term A = action_term A'" "\<not> action_eq A A'"
    and pr: "pr = pre @ p # post"
    and ties: "\<forall>q\<in>set pre. \<forall>mq. find (\<lambda>x. group x = group q) (terminalPrec st ! i) = Some mq \<longrightarrow>
                 0 \<le> precedence q \<and> precedence mq = precedence q \<and>
                 \<not> (is_Shift A \<and> associativity q \<noteq> None)"
    and m: "find (\<lambda>x. group x = group p) (terminalPrec st ! i) = Some m"
    and nonneg: "0 \<le> precedence p"
  shows "(precedence m > precedence p \<or>
          (precedence m = precedence p \<and> is_Shift A \<and> associativity p = Some Left) \<longrightarrow>
            addAction st A' pr at =
              Inr (True, st\<lparr>terminals := take i (terminals st) @ drop (Suc i) (terminals st) @ [A'],
                               terminalPrec := take i (terminalPrec st) @ drop (Suc i) (terminalPrec st) @ [pr],
                               ambiguous := True\<rparr>)) \<and>
         (precedence m < precedence p \<or>
          (precedence m = precedence p \<and> is_Shift A \<and> associativity p = Some Right) \<longrightarrow>
            addAction st A' pr at = Inr (True, st\<lparr>ambiguous := True\<rparr>))"
proof -
  have start: "addAction st A' pr at = addAction_loop i st A' pr at"
    unfolding addAction_def using i only by (intro addAction_loop_skip) auto
  have fm: "first_match (terminalPrec st ! i) (p # post) = Some (m, p)"
    using m by simp
  have cp: "check_prec A (terminalPrec st ! i) pr = check_prec A (terminalPrec st ! i) (p # post)"
    unfolding pr using ties by (rule check_prec_ties)
  have over: "addAction st A' pr at =
      Inr (True, st\<lparr>terminals := take i (terminals st) @ drop (Suc i) (terminals st) @ [A'],
                       terminalPrec := take i (terminalPrec st) @ drop (Suc i) (terminalPrec st) @ [pr],
                       ambiguous := True\<rparr>)"
    if c: "precedence m > precedence p \<or>
          (precedence m = precedence p \<and> is_Shift A \<and> associativity p = Some Left)"
  proof -
    let ?st2 = "st\<lparr>ambiguous := True, terminals := splice1 i (terminals st),
                     terminalPrec := splice1 i (terminalPrec st)\<rparr>"
    have "addAction_loop i st A' pr at = addAction_loop i ?st2 A' pr at"
      using i inv A cp check_prec_Override [OF fm nonneg c] by (simp add: addAction_loop_at)
    also have "\<dots> = Inr (True, ?st2\<lparr>terminals := terminals ?st2 @ [A'],
         terminalPrec := terminalPrec ?st2 @ [pr]\<rparr>)"
    proof (intro addAction_loop_absent allI impI)
      fix j assume j: "i \<le> j \<and> j < length (terminals ?st2)"
      then have "Suc j < length (terminals st)"
        using i by (simp add: length_splice1) arith
      moreover have "terminals ?st2 ! j = terminals st ! Suc j"
        using j i by (simp add: splice1_nth length_splice1)
      ultimately show "action_term (terminals ?st2 ! j) \<noteq> action_term A'"
        using only j by auto
    qed
    finally show ?thesis using start by (simp add: splice1_def)
  qed
  have keep: "addAction st A' pr at = Inr (True, st\<lparr>ambiguous := True\<rparr>)"
    if c: "precedence m < precedence p \<or>
          (precedence m = precedence p \<and> is_Shift A \<and> associativity p = Some Right)"
    using start i inv A cp check_prec_Keep [OF fm nonneg c] by (simp add: addAction_loop_at)
  from over keep show ?thesis by blast
qed

text \<open>
  The theorem at work on a table with a shift on another terminal before the shift on
  \<open>x\<close>, whose precedences are \<open>g/2, h/1\<close>. The new list starts with an entry of an unknown
  group and one that ties with \<open>h/1\<close>; then \<open>g/1\<close> lets the reduction replace the shift,
  and a right-associative \<open>g/2\<close> keeps the shift.
\<close>

definition ex_table :: State where
  "ex_table = \<lparr>state_id = 0, state_set = [],
     terminals = [Shift (ex_term\<lparr>name := ''y''\<rparr>) 2, Shift ex_term 1],
     terminalPrec = [[], [ex_lvl ''g'' 2, ex_lvl ''h'' 1]], goto = [], ambiguous = False\<rparr>"

theorem addAction_precedence_outcome_witness:
  "addAction ex_table (ex_reduce ''E'') [ex_lvl ''k'' 9, ex_lvl ''h'' 1, ex_lvl ''g'' 1] None =
     Inr (True, ex_table\<lparr>terminals := [Shift (ex_term\<lparr>name := ''y''\<rparr>) 2, ex_reduce ''E''],
           terminalPrec := [[], [ex_lvl ''k'' 9, ex_lvl ''h'' 1, ex_lvl ''g'' 1]],
           ambiguous := True\<rparr>) \<and>
   addAction ex_table (ex_reduce ''E'')
       [ex_lvl ''h'' 1, \<lparr>associativity = Some Right, group = ''g'', precedence = 2\<rparr>] None =
     Inr (True, ex_table\<lparr>ambiguous := True\<rparr>)"
  using addAction_precedence_outcome [where st = ex_table and i = 1
          and A = "Shift ex_term 1" and A' = "ex_reduce ''E''"
          and pr = "[ex_lvl ''k'' 9, ex_lvl ''h'' 1, ex_lvl ''g'' 1]" and at = None
          and pre = "[ex_lvl ''k'' 9, ex_lvl ''h'' 1]" and post = "[]"
          and m = "ex_lvl ''g'' 2" and p = "ex_lvl ''g'' 1"]
        addAction_precedence_outcome [where st = ex_table and i = 1
          and A = "Shift ex_term 1" and A' = "ex_reduce ''E''"
          and pr = "[ex_lvl ''h'' 1, \<lparr>associativity = Some Right, group = ''g'', precedence = 2\<rparr>]"
          and at = None and pre = "[ex_lvl ''h'' 1]" and post = "[]"
          and m = "ex_lvl ''g'' 2"
          and p = "\<lparr>associativity = Some Right, group = ''g'', precedence = 2\<rparr>"]
  by (simp add: ex_table_def ex_reduce_def ex_lvl_def ex_term_def ex_rule_def less_Suc_eq)

text \<open>
  Claim C5, as stated, fails: when the matching new entry has a negative level the loop
  goes on to the next table entry (\<open>continue check\<close>) and the new action is pushed at the
  end, so the table is not left unchanged. Here a reduction with level \<open>-1\<close> meets a shift
  of the same group: both actions are in the table afterwards.
\<close>

theorem addAction_negative_level_counterexample:
  "addAction (ex_state 1) (Reduce ex_term ex_rule) (ex_prec None (- 1)) None =
     Inr (True, (ex_state 1)\<lparr>terminals := [Shift ex_term 1, Reduce ex_term ex_rule],
        terminalPrec := [[\<lparr>associativity = None, group = ''g'', precedence = 1\<rparr>],
                         ex_prec None (- 1)],
        ambiguous := True\<rparr>)
   \<and> [Shift ex_term 1, Reduce ex_term ex_rule] \<noteq> terminals (ex_state 1)"
  by (simp add: addAction_def addAction_loop.simps ex_state_def ex_prec_def ex_term_def
      ex_rule_def Let_def)

text \<open>
  Claim C5, amended. When the first matching new entry has a negative level, the conflict
  is accepted as intentional: no error is raised, \<open>true\<close> is returned, the state is marked
  ambiguous, the existing action \<open>A\<close> stays, and (\<open>A\<close> being the only action on that
  terminal) the new action \<open>A'\<close> is appended with its precedence list, so that the terminal
  has both actions.
\<close>

theorem addAction_intentional_conflict:
  assumes inv: "length (terminalPrec st) = length (terminals st)"
    and i: "i < length (terminals st)"
    and only: "\<forall>j<length (terminals st). j \<noteq> i \<longrightarrow>
                 action_term (terminals st ! j) \<noteq> action_term A'"
    and A: "terminals st ! i = A" "action_term A = action_term A'" "\<not> action_eq A A'"
    and fm: "first_match (terminalPrec st ! i) pr = Some (m, p)"
    and neg: "precedence p < 0"
  shows "addAction st A' pr at =
    Inr (True, st\<lparr>terminals := terminals st @ [A'], terminalPrec := terminalPrec st @ [pr],
                      ambiguous := True\<rparr>)"
proof -
  have "addAction st A' pr at = addAction_loop i st A' pr at"
    unfolding addAction_def using i only by (intro addAction_loop_skip) auto
  also have "\<dots> = addAction_loop (Suc i) (st\<lparr>ambiguous := True\<rparr>) A' pr at"
    using i inv A check_prec_Skip [OF fm neg, of A] by (simp add: addAction_loop_at)
  also have "\<dots> = Inr (True, st\<lparr>ambiguous := True\<rparr>\<lparr>terminals :=
       terminals (st\<lparr>ambiguous := True\<rparr>) @ [A'],
       terminalPrec := terminalPrec (st\<lparr>ambiguous := True\<rparr>) @ [pr]\<rparr>)"
    using only by (intro addAction_loop_absent) auto
  finally show ?thesis by simp
qed

theorem addAction_intentional_conflict_witness:
  "addAction (ex_state 3) (Reduce ex_term ex_rule) (ex_prec (Some Left) (- 2)) None =
     Inr (True, (ex_state 3)\<lparr>terminals := [Shift ex_term 1, Reduce ex_term ex_rule],
        terminalPrec := [[\<lparr>associativity = None, group = ''g'', precedence = 3\<rparr>],
                         ex_prec (Some Left) (- 2)],
        ambiguous := True\<rparr>)"
  using addAction_intentional_conflict [where st = "ex_state 3" and i = 0
          and A = "Shift ex_term 1" and A' = "Reduce ex_term ex_rule"
          and pr = "ex_prec (Some Left) (- 2)" and at = None
          and m = "\<lparr>associativity = None, group = ''g'', precedence = 3\<rparr>"
          and p = "\<lparr>associativity = Some Left, group = ''g'', precedence = - 2\<rparr>"]
  by (simp add: ex_state_def ex_prec_def)

subsection \<open>Comparisons (Term.cmp, Precedence.cmp, Rule.cmp, cmpSet, Pos.cmp)\<close>

text \<open>\<open>a || b\<close> on numbers: \<open>a\<close> unless it is zero.\<close>

definition orelse :: "int \<Rightarrow> int \<Rightarrow> int" where
  "orelse a b = (if a \<noteq> 0 then a else b)"

definition cmpStr :: "string \<Rightarrow> string \<Rightarrow> int" where
  "cmpStr a b = (if a = b then 0 else if a < b then - 1 else 1)"

definition term_cmp :: "Term \<Rightarrow> Term \<Rightarrow> int" where
  "term_cmp a b =
     (if a = b then 0
      else orelse (if name a < name b then - 1 else 1) (int (flags a) - int (flags b)))"

definition assoc_str :: "Assoc option \<Rightarrow> string" where
  "assoc_str a = (case a of None \<Rightarrow> [] | Some Left \<Rightarrow> ''left'' | Some Right \<Rightarrow> ''right'')"

definition prec_cmp :: "Precedence \<Rightarrow> Precedence \<Rightarrow> int" where
  "prec_cmp a b =
     orelse (cmpStr (assoc_str (associativity a)) (assoc_str (associativity b)))
       (orelse (cmpStr (group a) (group b)) (precedence a - precedence b))"

text \<open>The loop of \<open>cmpSet\<close> and the \<open>reduce\<close> of \<open>Rule.cmp\<close>: the first difference decides.\<close>

fun cmp_each :: "('a \<Rightarrow> 'a \<Rightarrow> int) \<Rightarrow> 'a list \<Rightarrow> 'a list \<Rightarrow> int" where
  "cmp_each c (x # xs) (y # ys) = orelse (c x y) (cmp_each c xs ys)"
| "cmp_each c _ _ = 0"

definition cmpSet :: "'a list \<Rightarrow> 'a list \<Rightarrow> ('a \<Rightarrow> 'a \<Rightarrow> int) \<Rightarrow> int" where
  "cmpSet a b c =
     (if length a \<noteq> length b then int (length a) - int (length b) else cmp_each c a b)"

definition rule_cmp :: "Rule \<Rightarrow> Rule \<Rightarrow> int" where
  "rule_cmp r s =
     orelse (term_cmp (rule_name r) (rule_name s))
       (orelse (int (length (parts r)) - int (length (parts s)))
          (orelse (cmp_each term_cmp (parts r) (parts s))
             (int (length (rule_precedence r)) - int (length (rule_precedence s)))))"

definition cmpSimple :: "Pos \<Rightarrow> Pos \<Rightarrow> int" where
  "cmpSimple p q = orelse (rule_cmp (rule p) (rule q)) (int (pos p) - int (pos q))"

definition pos_cmp :: "Pos \<Rightarrow> Pos \<Rightarrow> int" where
  "pos_cmp p q =
     orelse (cmpSimple p q) (orelse (term_cmp (ahead p) (ahead q)) (cmpSet (prec p) (prec q) prec_cmp))"

text \<open>
  \<open>Array.prototype.sort\<close> with a comparison function: an item goes before the items it
  does not compare greater than. The model is insertion from the right, which keeps the
  order of items that compare equal.
\<close>

fun insert_by :: "('a \<Rightarrow> 'a \<Rightarrow> int) \<Rightarrow> 'a \<Rightarrow> 'a list \<Rightarrow> 'a list" where
  "insert_by c x [] = [x]"
| "insert_by c x (y # ys) = (if c x y \<le> 0 then x # y # ys else y # insert_by c x ys)"

definition sort_by :: "('a \<Rightarrow> 'a \<Rightarrow> int) \<Rightarrow> 'a list \<Rightarrow> 'a list" where
  "sort_by c xs = foldr (insert_by c) xs []"

subsection \<open>Pos.next, Pos.termsAhead and closure\<close>

definition next_term :: "Pos \<Rightarrow> Term option" where
  "next_term p = (if pos p < length (parts (rule p)) then Some (parts (rule p) ! pos p) else None)"

text \<open>
  The FIRST table is an object from names to arrays of terms, \<open>null\<close> standing for the
  empty string: an association list, looked up by name.
\<close>

type_synonym first_table = "(string \<times> Term option list) list"

text \<open>The inner loop of \<open>termsAhead\<close> over the terms of one part.\<close>

fun scan_terms :: "Term option list \<Rightarrow> Term list \<Rightarrow> bool \<Rightarrow> Term list \<times> bool" where
  "scan_terms [] found cont = (found, cont)"
| "scan_terms (None # ts) found cont = scan_terms ts found True"
| "scan_terms (Some t # ts) found cont =
     scan_terms ts (if t \<in> set found then found else found @ [t]) cont"

text \<open>
  The outer loop, over the parts after the one behind the dot. A non-terminal without an
  entry in the table makes the \<open>for ... of\<close> raise.
\<close>

fun termsAhead_parts :: "Term list \<Rightarrow> first_table \<Rightarrow> Term \<Rightarrow> Term list \<Rightarrow> error + Term list" where
  "termsAhead_parts [] first a found = Inr (if a \<in> set found then found else found @ [a])"
| "termsAhead_parts (nx # rest) first a found =
     (case (if terminal nx then Some [Some nx] else map_of first (name nx)) of
        None \<Rightarrow> Inl TypeError
      | Some ts \<Rightarrow>
          (case scan_terms ts found False of
             (found', cont) \<Rightarrow>
               if \<not> cont then Inr found' else termsAhead_parts rest first a found'))"

definition termsAhead :: "Pos \<Rightarrow> first_table \<Rightarrow> error + Term list" where
  "termsAhead p first = termsAhead_parts (drop (pos p + 1) (parts (rule p))) first (ahead p) []"

text \<open>The two inner loops of \<open>closure\<close>: over the lookaheads, and over the rules.\<close>

fun add_aheads :: "Rule \<Rightarrow> Precedence list \<Rightarrow> Term list \<Rightarrow> Pos list \<Rightarrow> Pos list" where
  "add_aheads r nextPrec [] result = result"
| "add_aheads r nextPrec (a # as) result =
     add_aheads r nextPrec as
       (if \<not> list_ex (\<lambda>p. rule p = r \<and> pos p = 0 \<and> ahead p = a) result
        then result @ [\<lparr>rule = r, pos = 0, ahead = a, prec = nextPrec\<rparr>]
        else result)"

fun add_rules :: "Term \<Rightarrow> Precedence list \<Rightarrow> Term list \<Rightarrow> Rule list \<Rightarrow> Pos list \<Rightarrow> Pos list" where
  "add_rules nx nextPrec aheads [] result = result"
| "add_rules nx nextPrec aheads (r # rs) result =
     add_rules nx nextPrec aheads rs
       (if rule_name r = nx then add_aheads r nextPrec aheads result else result)"
text \<open>
  What bounds the loop of \<open>closure\<close>: an item is pushed for a rule of the grammar and a
  lookahead out of a finite universe (the lookaheads and rule parts at hand and the terms
  of the table), and only when the set has no item yet for that rule and lookahead with
  the dot at 0.
\<close>

definition table_terms :: "first_table \<Rightarrow> Term set" where
  "table_terms first = {t. \<exists>e\<in>set first. Some t \<in> set (snd e)}"

definition ahead_universe :: "Pos list \<Rightarrow> Rule list \<Rightarrow> first_table \<Rightarrow> Term set" where
  "ahead_universe result rules first =
     ahead ` set result \<union> (\<Union>p\<in>set result. set (parts (rule p))) \<union>
     (\<Union>r\<in>set rules. set (parts r)) \<union> table_terms first"

definition item_keys :: "Pos list \<Rightarrow> (Rule \<times> Term) set" where
  "item_keys result = (\<lambda>p. (rule p, ahead p)) ` {p \<in> set result. pos p = 0}"

definition closure_measure :: "nat \<times> Pos list \<times> Rule list \<times> first_table \<Rightarrow> nat" where
  "closure_measure = (\<lambda>(i, result, rules, first).
     2 * card (set rules \<times> ahead_universe result rules first - item_keys result) +
     (length result - i))"

lemma finite_table_terms: "finite (table_terms first)"
proof -
  have "table_terms first \<subseteq> (\<Union>e\<in>set first. the ` set (snd e))"
    by (force simp: table_terms_def)
  moreover have "finite (\<Union>e\<in>set first. the ` set (snd e))" by simp
  ultimately show ?thesis by (rule finite_subset)
qed

lemma finite_ahead_universe: "finite (ahead_universe result rules first)"
  by (simp add: ahead_universe_def finite_table_terms)

lemma scan_terms_subset:
  "scan_terms ts found cont = (found', cont') \<Longrightarrow>
   set found' \<subseteq> set found \<union> {t. Some t \<in> set ts}"
  by (induction ts found cont rule: scan_terms.induct) (auto split: if_splits)

lemma termsAhead_parts_subset:
  "termsAhead_parts ps first a found = Inr out \<Longrightarrow>
   set out \<subseteq> set found \<union> {a} \<union> set ps \<union> table_terms first"
proof (induction ps first a found rule: termsAhead_parts.induct)
  case (1 first a found)
  then show ?case by (auto split: if_splits)
next
  case (2 nx rest first a found)
  let ?look = "if terminal nx then Some [Some nx] else map_of first (name nx)"
  from "2.prems" obtain ts where ts: "?look = Some ts"
    by (cases ?look) auto
  obtain found' cont where sc: "scan_terms ts found False = (found', cont)"
    by (cases "scan_terms ts found False")
  have tsub: "{t. Some t \<in> set ts} \<subseteq> {nx} \<union> table_terms first"
  proof (cases "terminal nx")
    case True
    with ts show ?thesis by auto
  next
    case False
    with ts have "(name nx, ts) \<in> set first" by (auto dest: map_of_SomeD)
    then show ?thesis by (force simp: table_terms_def)
  qed
  from scan_terms_subset [OF sc] tsub
  have f': "set found' \<subseteq> set found \<union> {nx} \<union> table_terms first" by blast
  show ?case
  proof (cases cont)
    case False
    with "2.prems" ts sc have "out = found'" by simp
    with f' show ?thesis by auto
  next
    case True
    with "2.prems" ts sc have "termsAhead_parts rest first a found' = Inr out" by simp
    from "2.IH" [OF ts sc [symmetric] _ this] True
    have "set out \<subseteq> set found' \<union> {a} \<union> set rest \<union> table_terms first" by simp
    with f' show ?thesis by auto
  qed
qed

lemma termsAhead_subset:
  assumes "termsAhead p first = Inr out"
  shows "set out \<subseteq> {ahead p} \<union> set (parts (rule p)) \<union> table_terms first"
proof -
  from termsAhead_parts_subset [OF assms [unfolded termsAhead_def]]
  have "set out \<subseteq> {ahead p} \<union> set (drop (pos p + 1) (parts (rule p))) \<union> table_terms first"
    by auto
  moreover have "set (drop (pos p + 1) (parts (rule p))) \<subseteq> set (parts (rule p))"
    by (rule set_drop_subset)
  ultimately show ?thesis by blast
qed

lemma item_keys_append:
  "item_keys (xs @ [\<lparr>rule = r, pos = 0, ahead = a, prec = pr\<rparr>]) = insert (r, a) (item_keys xs)"
proof -
  have "{p \<in> set (xs @ [\<lparr>rule = r, pos = 0, ahead = a, prec = pr\<rparr>]). pos p = 0} =
      insert \<lparr>rule = r, pos = 0, ahead = a, prec = pr\<rparr> {p \<in> set xs. pos p = 0}"
    by auto
  then show ?thesis by (simp add: item_keys_def)
qed

lemma no_item_iff:
  "list_ex (\<lambda>p. rule p = r \<and> pos p = 0 \<and> ahead p = a) result \<longleftrightarrow> (r, a) \<in> item_keys result"
  by (auto simp: list_ex_iff item_keys_def)

lemma add_aheads_step:
  assumes "finite U" "{r} \<times> set as \<subseteq> U"
  shows "card (U - item_keys (add_aheads r pr as result)) + length (add_aheads r pr as result)
           \<le> card (U - item_keys result) + length result
         \<and> item_keys result \<subseteq> item_keys (add_aheads r pr as result)
         \<and> length result \<le> length (add_aheads r pr as result)"
  using assms(2)
proof (induction as arbitrary: result)
  case Nil
  then show ?case by simp
next
  case (Cons a as)
  let ?one = "if \<not> list_ex (\<lambda>p. rule p = r \<and> pos p = 0 \<and> ahead p = a) result
        then result @ [\<lparr>rule = r, pos = 0, ahead = a, prec = pr\<rparr>] else result"
  have one: "card (U - item_keys ?one) + length ?one \<le> card (U - item_keys result) + length result
      \<and> item_keys result \<subseteq> item_keys ?one \<and> length result \<le> length ?one"
  proof (cases "(r, a) \<in> item_keys result")
    case True
    then show ?thesis by (simp add: no_item_iff)
  next
    case False
    have "(r, a) \<in> U" using Cons.prems by auto
    with False have "(r, a) \<in> U - item_keys result" by simp
    moreover have "finite (U - item_keys result)" using assms(1) by simp
    ultimately have "card (U - item_keys result) > 0" by (auto simp: card_gt_0_iff)
    moreover have "U - insert (r, a) (item_keys result) = (U - item_keys result) - {(r, a)}"
      by auto
    then have "card (U - insert (r, a) (item_keys result)) = card (U - item_keys result) - 1"
      using \<open>(r, a) \<in> U - item_keys result\<close> by simp
    ultimately show ?thesis using False
      by (auto simp: no_item_iff item_keys_append)
  qed
  from Cons.prems have "{r} \<times> set as \<subseteq> U" by auto
  from Cons.IH [OF this, of ?one]
  have a: "card (U - item_keys (add_aheads r pr as ?one)) + length (add_aheads r pr as ?one)
           \<le> card (U - item_keys ?one) + length ?one"
    and b: "item_keys ?one \<subseteq> item_keys (add_aheads r pr as ?one)"
    and c: "length ?one \<le> length (add_aheads r pr as ?one)"
    by blast+
  have eq: "add_aheads r pr (a # as) result = add_aheads r pr as ?one" by simp
  from one a have "card (U - item_keys (add_aheads r pr as ?one)) + length (add_aheads r pr as ?one)
           \<le> card (U - item_keys result) + length result" by linarith
  moreover from one b have "item_keys result \<subseteq> item_keys (add_aheads r pr as ?one)" by blast
  moreover from one c have "length result \<le> length (add_aheads r pr as ?one)" by linarith
  ultimately show ?case unfolding eq by blast
qed

lemma add_aheads_universe:
  assumes "r \<in> set rules" "set as \<subseteq> ahead_universe result rules first"
  shows "ahead_universe (add_aheads r pr as result) rules first = ahead_universe result rules first"
  using assms(2)
proof (induction as arbitrary: result)
  case Nil
  then show ?case by simp
next
  case (Cons a as)
  let ?one = "if \<not> list_ex (\<lambda>p. rule p = r \<and> pos p = 0 \<and> ahead p = a) result
        then result @ [\<lparr>rule = r, pos = 0, ahead = a, prec = pr\<rparr>] else result"
  have one: "ahead_universe ?one rules first = ahead_universe result rules first"
    using Cons.prems assms(1) by (auto simp: ahead_universe_def)
  with Cons.prems have "set as \<subseteq> ahead_universe ?one rules first" by simp
  from Cons.IH [OF this] one show ?case by simp
qed

lemma add_rules_step:
  assumes "finite U" "set rs \<times> set as \<subseteq> U"
  shows "card (U - item_keys (add_rules nx pr as rs result)) + length (add_rules nx pr as rs result)
           \<le> card (U - item_keys result) + length result
         \<and> item_keys result \<subseteq> item_keys (add_rules nx pr as rs result)
         \<and> length result \<le> length (add_rules nx pr as rs result)"
  using assms(2)
proof (induction rs arbitrary: result)
  case Nil
  then show ?case by simp
next
  case (Cons r rs)
  let ?one = "if rule_name r = nx then add_aheads r pr as result else result"
  from Cons.prems have "{r} \<times> set as \<subseteq> U" by auto
  from add_aheads_step [OF assms(1) this, of pr result]
  have one: "card (U - item_keys ?one) + length ?one \<le> card (U - item_keys result) + length result
      \<and> item_keys result \<subseteq> item_keys ?one \<and> length result \<le> length ?one"
    by simp
  from Cons.prems have "set rs \<times> set as \<subseteq> U" by auto
  from Cons.IH [OF this, of ?one]
  have a: "card (U - item_keys (add_rules nx pr as rs ?one)) + length (add_rules nx pr as rs ?one)
           \<le> card (U - item_keys ?one) + length ?one"
    and b: "item_keys ?one \<subseteq> item_keys (add_rules nx pr as rs ?one)"
    and c: "length ?one \<le> length (add_rules nx pr as rs ?one)"
    by blast+
  have eq: "add_rules nx pr as (r # rs) result = add_rules nx pr as rs ?one" by simp
  from one a have "card (U - item_keys (add_rules nx pr as rs ?one)) + length (add_rules nx pr as rs ?one)
           \<le> card (U - item_keys result) + length result" by linarith
  moreover from one b have "item_keys result \<subseteq> item_keys (add_rules nx pr as rs ?one)" by blast
  moreover from one c have "length result \<le> length (add_rules nx pr as rs ?one)" by linarith
  ultimately show ?case unfolding eq by blast
qed

lemma add_rules_universe:
  assumes "set rs \<subseteq> set rules" "set as \<subseteq> ahead_universe result rules first"
  shows "ahead_universe (add_rules nx pr as rs result) rules first = ahead_universe result rules first"
  using assms
proof (induction rs arbitrary: result)
  case Nil
  then show ?case by simp
next
  case (Cons r rs)
  let ?one = "if rule_name r = nx then add_aheads r pr as result else result"
  have one: "ahead_universe ?one rules first = ahead_universe result rules first"
    using Cons.prems by (simp add: add_aheads_universe)
  with Cons.prems have "set as \<subseteq> ahead_universe ?one rules first" by simp
  from Cons.IH [OF _ this] Cons.prems one show ?case by simp
qed

lemma closure_measure_decreases:
  assumes i: "i < length result" and ta: "termsAhead (result ! i) first = Inr as"
  shows "closure_measure (Suc i, add_rules nx pr as rules result, rules, first)
           < closure_measure (i, result, rules, first)"
proof -
  let ?A = "ahead_universe result rules first"
  let ?U = "set rules \<times> ?A"
  let ?res = "add_rules nx pr as rules result"
  have "result ! i \<in> set result" using i by simp
  then have "{ahead (result ! i)} \<union> set (parts (rule (result ! i))) \<subseteq> ?A"
    by (auto simp: ahead_universe_def)
  with termsAhead_subset [OF ta] have sub: "set as \<subseteq> ?A"
    by (auto simp: ahead_universe_def)
  have uni: "ahead_universe ?res rules first = ?A"
    using sub by (intro add_rules_universe) simp_all
  have fin: "finite ?U" by (simp add: finite_ahead_universe)
  from add_rules_step [OF fin, of rules as nx pr result] sub
  have pot: "card (?U - item_keys ?res) + length ?res \<le> card (?U - item_keys result) + length result"
    and mono: "item_keys result \<subseteq> item_keys ?res"
    and len: "length result \<le> length ?res"
    by auto
  from mono have "?U - item_keys ?res \<subseteq> ?U - item_keys result" by auto
  with fin have "card (?U - item_keys ?res) \<le> card (?U - item_keys result)"
    by (intro card_mono) auto
  with pot len i show ?thesis
    unfolding closure_measure_def by (simp add: uni)
qed

text \<open>The loop of \<open>closure\<close> over the growing array, from index \<open>i\<close>.\<close>

function closure_loop :: "nat \<Rightarrow> Pos list \<Rightarrow> Rule list \<Rightarrow> first_table \<Rightarrow> error + Pos list" where
  "closure_loop i result rules first =
     (if i < length result then
        (case next_term (result ! i) of
           None \<Rightarrow> closure_loop (Suc i) result rules first
         | Some nx \<Rightarrow>
             if terminal nx then closure_loop (Suc i) result rules first
             else
               (case termsAhead (result ! i) first of
                  Inl e \<Rightarrow> Inl e
                | Inr aheads \<Rightarrow>
                    closure_loop (Suc i)
                      (add_rules nx (precAt (rule (result ! i)) (pos (result ! i))) aheads rules result)
                      rules first))
      else Inr result)"
  by pat_completeness auto
termination
  apply (relation "measure closure_measure")
     apply simp
    apply (simp add: closure_measure_def)
   apply (simp add: closure_measure_def)
  apply (simp add: closure_measure_decreases)
  done

declare closure_loop.simps [simp del]

definition closure :: "Pos list \<Rightarrow> Rule list \<Rightarrow> first_table \<Rightarrow> error + Pos list" where
  "closure items rules first =
     (case closure_loop 0 items rules first of
        Inl e \<Rightarrow> Inl e
      | Inr result \<Rightarrow> Inr (sort_by pos_cmp result))"
subsection \<open>The item order\<close>

text \<open>
  The canonical item ordering is lexicographic by rule, dot, lookahead and precedence
  stack. It is the order of the keys below, compared as tuples, strings and lists are:
  a rule by the name of its left side, its length, the names of its parts and the number
  of its precedence lists; a lookahead by its name; a precedence stack by its length and
  then entry by entry (associativity, group, level). Where the terms at hand have
  distinct names, the comparison functions of the code are three-way comparisons of
  these orders: each agrees with the order of its key.
\<close>

definition agrees :: "'k::linorder \<Rightarrow> 'k \<Rightarrow> int \<Rightarrow> bool" where
  "agrees x y c \<longleftrightarrow> (c < 0 \<longleftrightarrow> x < y) \<and> (c = 0 \<longleftrightarrow> x = y)"

definition prec_key :: "Precedence \<Rightarrow> string \<times> string \<times> int" where
  "prec_key x = (assoc_str (associativity x), group x, precedence x)"

definition rule_key :: "Rule \<Rightarrow> string \<times> nat \<times> string list \<times> nat" where
  "rule_key r = (name (rule_name r), length (parts r), map name (parts r), length (rule_precedence r))"

definition pos_key ::
  "Pos \<Rightarrow> ((string \<times> nat \<times> string list \<times> nat) \<times> nat) \<times> string \<times> nat \<times> (string \<times> string \<times> int) list" where
  "pos_key p = ((rule_key (rule p), pos p), name (ahead p), length (prec p), map prec_key (prec p))"

definition item_terms :: "Pos \<Rightarrow> Term set" where
  "item_terms p = insert (rule_name (rule p)) (insert (ahead p) (set (parts (rule p))))"

lemma agrees_orelse:
  "agrees x y c \<Longrightarrow> (x = y \<Longrightarrow> agrees x' y' c') \<Longrightarrow> agrees (x, x') (y, y') (orelse c c')"
  by (auto simp: agrees_def orelse_def less_prod_def)

lemma agrees_int: "agrees (a::int) b (a - b)"
  by (auto simp: agrees_def)

lemma agrees_nat: "agrees (m::nat) n (int m - int n)"
  by (auto simp: agrees_def)

lemma agrees_cmpStr: "agrees a b (cmpStr a b)"
  by (auto simp: agrees_def cmpStr_def)

lemma agrees_term:
  "inj_on name G \<Longrightarrow> a \<in> G \<Longrightarrow> b \<in> G \<Longrightarrow> agrees (name a) (name b) (term_cmp a b)"
  by (auto simp: agrees_def term_cmp_def orelse_def dest: inj_onD)

lemma agrees_cmp_each:
  assumes "length xs = length ys"
    and "\<And>x y. x \<in> set xs \<Longrightarrow> y \<in> set ys \<Longrightarrow> agrees (k x) (k y) (c x y)"
  shows "agrees (map k xs) (map k ys) (cmp_each c xs ys)"
  using assms
proof (induction xs ys rule: list_induct2)
  case Nil
  then show ?case by (simp add: agrees_def)
next
  case (Cons x xs y ys)
  have h: "agrees (k x) (k y) (c x y)" using Cons.prems by simp
  have t: "agrees (map k xs) (map k ys) (cmp_each c xs ys)"
    using Cons by simp
  from h t show ?case
    by (auto simp: agrees_def orelse_def)
qed

lemma agrees_cmpSet:
  assumes "\<And>x y. x \<in> set xs \<Longrightarrow> y \<in> set ys \<Longrightarrow> agrees (k x) (k y) (c x y)"
  shows "agrees (length xs, map k xs) (length ys, map k ys) (cmpSet xs ys c)"
proof (cases "length xs = length ys")
  case True
  from agrees_cmp_each [OF True assms] True show ?thesis
    by (auto simp: agrees_def cmpSet_def less_prod_def)
next
  case False
  then show ?thesis
    by (auto simp: agrees_def cmpSet_def less_prod_def)
qed

lemma agrees_prec: "agrees (prec_key a) (prec_key b) (prec_cmp a b)"
  unfolding prec_key_def prec_cmp_def
  by (intro agrees_orelse agrees_cmpStr agrees_int)

lemma agrees_rule:
  assumes "inj_on name G" "insert (rule_name r) (set (parts r)) \<subseteq> G"
    "insert (rule_name s) (set (parts s)) \<subseteq> G"
  shows "agrees (rule_key r) (rule_key s) (rule_cmp r s)"
  unfolding rule_key_def rule_cmp_def
proof (intro agrees_orelse agrees_nat)
  show "agrees (name (rule_name r)) (name (rule_name s)) (term_cmp (rule_name r) (rule_name s))"
    using assms by (intro agrees_term [of G]) auto
  assume "length (parts r) = length (parts s)"
  then show "agrees (map name (parts r)) (map name (parts s)) (cmp_each term_cmp (parts r) (parts s))"
    using assms by (intro agrees_cmp_each agrees_term [of G]) auto
qed

lemma agrees_pos:
  assumes "inj_on name G" "item_terms p \<subseteq> G" "item_terms q \<subseteq> G"
  shows "agrees (pos_key p) (pos_key q) (pos_cmp p q)"
  unfolding pos_key_def pos_cmp_def cmpSimple_def
proof (intro agrees_orelse agrees_nat agrees_cmpSet agrees_prec)
  show "agrees (rule_key (rule p)) (rule_key (rule q)) (rule_cmp (rule p) (rule q))"
    using assms by (intro agrees_rule [of G]) (auto simp: item_terms_def)
  show "agrees (name (ahead p)) (name (ahead q)) (term_cmp (ahead p) (ahead q))"
    using assms by (intro agrees_term [of G]) (auto simp: item_terms_def)
qed

lemma pos_cmp_le_iff:
  assumes "inj_on name G" "item_terms p \<subseteq> G" "item_terms q \<subseteq> G"
  shows "pos_cmp p q \<le> 0 \<longleftrightarrow> pos_key p \<le> pos_key q"
  using agrees_pos [OF assms] by (auto simp: agrees_def)

text \<open>The sort returns a sorted permutation when the comparison is that of a key.\<close>

lemma mset_insert_by: "mset (insert_by c x ys) = add_mset x (mset ys)"
  by (induction ys) auto

lemma mset_sort_by: "mset (sort_by c xs) = mset xs"
  by (induction xs) (auto simp: sort_by_def mset_insert_by)

lemma set_insert_by: "set (insert_by c x ys) = insert x (set ys)"
  by (induction ys) auto

lemma sorted_insert_by:
  fixes k :: "'a \<Rightarrow> 'k::linorder"
  assumes "\<And>a b. a \<in> S \<Longrightarrow> b \<in> S \<Longrightarrow> c a b \<le> 0 \<longleftrightarrow> k a \<le> k b"
    and "x \<in> S" "set ys \<subseteq> S" "sorted (map k ys)"
  shows "sorted (map k (insert_by c x ys))"
  using assms(3,4)
proof (induction ys)
  case Nil
  then show ?case by simp
next
  case (Cons y ys)
  show ?case
  proof (cases "c x y \<le> 0")
    case True
    with assms(1) [of x y] assms(2) Cons.prems have "k x \<le> k y" by simp
    with True Cons.prems show ?thesis by auto
  next
    case False
    with assms(1) [of x y] assms(2) Cons.prems have "k y \<le> k x" by auto
    with False Cons show ?thesis by (auto simp: set_insert_by)
  qed
qed

lemma sorted_sort_by:
  fixes k :: "'a \<Rightarrow> 'k::linorder"
  assumes "\<And>a b. a \<in> S \<Longrightarrow> b \<in> S \<Longrightarrow> c a b \<le> 0 \<longleftrightarrow> k a \<le> k b" and "set xs \<subseteq> S"
  shows "sorted (map k (sort_by c xs))"
  using assms(2)
proof (induction xs)
  case Nil
  then show ?case by (simp add: sort_by_def)
next
  case (Cons x xs)
  have "set (sort_by c xs) \<subseteq> S"
    using Cons.prems mset_sort_by [of c xs] by (metis set_mset_mset set_subset_Cons subset_trans)
  with Cons have "sorted (map k (insert_by c x (sort_by c xs)))"
    by (intro sorted_insert_by [of S c k]) (auto simp: assms(1))
  then show ?case by (simp add: sort_by_def)
qed

lemma sorted_pos_key:
  assumes "inj_on name G" "\<forall>p\<in>set xs. item_terms p \<subseteq> G"
  shows "sorted (map pos_key (sort_by pos_cmp xs))"
  using assms by (intro sorted_sort_by [of "{p. item_terms p \<subseteq> G}"]) (auto simp: pos_cmp_le_iff)

lemma sorted_wrt_pos_cmp:
  assumes "inj_on name G" "\<forall>p\<in>set xs. item_terms p \<subseteq> G"
  shows "sorted_wrt (\<lambda>a b. pos_cmp a b \<le> 0) (sort_by pos_cmp xs)"
proof -
  let ?S = "{p. item_terms p \<subseteq> G}"
  have key: "sorted (map pos_key (sort_by pos_cmp xs))"
    using assms by (intro sorted_sort_by [of ?S]) (auto simp: pos_cmp_le_iff)
  have mem: "set (sort_by pos_cmp xs) \<subseteq> ?S"
    using assms(2) mset_sort_by [of pos_cmp xs] by (metis (no_types, lifting) mem_Collect_eq set_mset_mset subsetI)
  from key have "sorted_wrt (\<lambda>a b. pos_key a \<le> pos_key b) (sort_by pos_cmp xs)"
    by (simp add: sorted_map)
  then show ?thesis
  proof (rule sorted_wrt_mono_rel [rotated])
    fix a b assume "a \<in> set (sort_by pos_cmp xs)" "b \<in> set (sort_by pos_cmp xs)"
      "pos_key a \<le> pos_key b"
    with mem assms(1) show "pos_cmp a b \<le> 0"
      using pos_cmp_le_iff [of G a b] by auto
  qed
qed
subsection \<open>What \<open>closure\<close> adds\<close>

text \<open>
  The terms of a call of \<open>closure\<close>: those of the kernel items, of the rules and of the
  table. The loop keeps the kernel at the front of the array; behind it come the items it
  pushes, each with the dot at 0, for a rule of the grammar, and with a rule and lookahead
  that no item with the dot at 0 before it has.
\<close>

definition grammar_terms :: "Pos list \<Rightarrow> Rule list \<Rightarrow> first_table \<Rightarrow> Term set" where
  "grammar_terms items rules first =
     (\<Union>p\<in>set items. item_terms p) \<union> (\<Union>r\<in>set rules. insert (rule_name r) (set (parts r))) \<union>
     table_terms first"

definition closure_inv :: "Pos list \<Rightarrow> Rule list \<Rightarrow> first_table \<Rightarrow> Pos list \<Rightarrow> bool" where
  "closure_inv items rules first result \<longleftrightarrow>
     (\<exists>added. result = items @ added \<and>
        distinct (map (\<lambda>p. (rule p, ahead p)) added) \<and>
        (\<forall>p\<in>set added. pos p = 0 \<and> rule p \<in> set rules \<and>
           ahead p \<in> grammar_terms items rules first \<and> (rule p, ahead p) \<notin> item_keys items))"

lemma closure_inv_terms:
  assumes "closure_inv items rules first result" "p \<in> set result"
  shows "item_terms p \<subseteq> grammar_terms items rules first"
proof -
  from assms(1) obtain added where r: "result = items @ added"
    and a: "\<forall>p\<in>set added. rule p \<in> set rules \<and> ahead p \<in> grammar_terms items rules first"
    unfolding closure_inv_def by blast
  from assms(2) r consider "p \<in> set items" | "p \<in> set added" by auto
  then show ?thesis
  proof cases
    case 1
    then show ?thesis by (auto simp: grammar_terms_def)
  next
    case 2
    with a have "rule p \<in> set rules" "ahead p \<in> grammar_terms items rules first" by auto
    then show ?thesis by (auto simp: grammar_terms_def item_terms_def)
  qed
qed

lemma add_aheads_inv:
  assumes "r \<in> set rules" "set as \<subseteq> grammar_terms items rules first"
    and "closure_inv items rules first result"
  shows "closure_inv items rules first (add_aheads r pr as result)"
  using assms(2,3)
proof (induction as arbitrary: result)
  case Nil
  then show ?case by simp
next
  case (Cons a as)
  let ?new = "\<lparr>rule = r, pos = 0, ahead = a, prec = pr\<rparr>"
  let ?one = "if \<not> list_ex (\<lambda>p. rule p = r \<and> pos p = 0 \<and> ahead p = a) result
        then result @ [?new] else result"
  have "closure_inv items rules first ?one"
  proof (cases "(r, a) \<in> item_keys result")
    case True
    with Cons.prems show ?thesis by (simp add: no_item_iff)
  next
    case False
    from Cons.prems(2) obtain added where r: "result = items @ added"
      and d: "distinct (map (\<lambda>p. (rule p, ahead p)) added)"
      and a: "\<forall>p\<in>set added. pos p = 0 \<and> rule p \<in> set rules \<and>
           ahead p \<in> grammar_terms items rules first \<and> (rule p, ahead p) \<notin> item_keys items"
      unfolding closure_inv_def by blast
    have k1: "(r, a) \<notin> item_keys items"
      using False r by (auto simp: item_keys_def)
    have k2: "(r, a) \<notin> (\<lambda>p. (rule p, ahead p)) ` set added"
    proof
      assume "(r, a) \<in> (\<lambda>p. (rule p, ahead p)) ` set added"
      then obtain p where "p \<in> set added" "rule p = r" "ahead p = a" by auto
      with a r have "(r, a) \<in> item_keys result" by (force simp: item_keys_def)
      with False show False ..
    qed
    have "closure_inv items rules first (result @ [?new])"
      unfolding closure_inv_def
    proof (intro exI [of _ "added @ [?new]"] conjI)
      show "result @ [?new] = items @ added @ [?new]" using r by simp
      show "distinct (map (\<lambda>p. (rule p, ahead p)) (added @ [?new]))" using d k2 by simp
      show "\<forall>p\<in>set (added @ [?new]). pos p = 0 \<and> rule p \<in> set rules \<and>
           ahead p \<in> grammar_terms items rules first \<and> (rule p, ahead p) \<notin> item_keys items"
        using a k1 assms(1) Cons.prems(1) by auto
    qed
    with False show ?thesis by (simp add: no_item_iff)
  qed
  moreover from Cons.prems have "set as \<subseteq> grammar_terms items rules first" by simp
  ultimately have "closure_inv items rules first (add_aheads r pr as ?one)"
    by (rule Cons.IH [rotated])
  then show ?case by simp
qed

lemma add_rules_inv:
  assumes "set rs \<subseteq> set rules" "set as \<subseteq> grammar_terms items rules first"
    and "closure_inv items rules first result"
  shows "closure_inv items rules first (add_rules nx pr as rs result)"
  using assms(1,3)
proof (induction rs arbitrary: result)
  case Nil
  then show ?case by simp
next
  case (Cons r rs)
  let ?one = "if rule_name r = nx then add_aheads r pr as result else result"
  have "closure_inv items rules first ?one"
    using Cons.prems assms(2) by (simp add: add_aheads_inv)
  moreover from Cons.prems have "set rs \<subseteq> set rules" by simp
  ultimately have "closure_inv items rules first (add_rules nx pr as rs ?one)"
    by (rule Cons.IH [rotated])
  then show ?case by simp
qed

lemma closure_loop_inv:
  "closure_loop i result rules first = Inr out \<Longrightarrow> closure_inv items rules first result \<Longrightarrow>
   closure_inv items rules first out"
proof (induction i result rules first rule: closure_loop.induct)
  case (1 i result rules first)
  show ?case
  proof (cases "i < length result")
    case False
    with "1.prems" show ?thesis by (simp add: closure_loop.simps)
  next
    case True
    note i = this
    show ?thesis
    proof (cases "next_term (result ! i)")
      case None
      with i "1.prems" have "closure_loop (Suc i) result rules first = Inr out"
        by (simp add: closure_loop.simps [of i])
      from "1.IH"(1) [OF i None this "1.prems"(2)] show ?thesis .
    next
      case (Some nx)
      show ?thesis
      proof (cases "terminal nx")
        case True
        with i Some "1.prems" have "closure_loop (Suc i) result rules first = Inr out"
          by (simp add: closure_loop.simps [of i])
        from "1.IH"(2) [OF i Some True this "1.prems"(2)] show ?thesis .
      next
        case False
        with i Some "1.prems" obtain as where ta: "termsAhead (result ! i) first = Inr as"
          and rest: "closure_loop (Suc i)
              (add_rules nx (precAt (rule (result ! i)) (pos (result ! i))) as rules result)
              rules first = Inr out"
          by (auto simp: closure_loop.simps [of i] split: sum.splits)
        have "item_terms (result ! i) \<subseteq> grammar_terms items rules first"
          using closure_inv_terms [OF "1.prems"(2)] i by simp
        with termsAhead_subset [OF ta] have "set as \<subseteq> grammar_terms items rules first"
          by (auto simp: item_terms_def grammar_terms_def)
        then have "closure_inv items rules first
            (add_rules nx (precAt (rule (result ! i)) (pos (result ! i))) as rules result)"
          using "1.prems"(2) by (intro add_rules_inv) simp_all
        from "1.IH"(3) [OF i Some False ta rest this] show ?thesis .
      qed
    qed
  qed
qed

lemma closure_inv_start: "closure_inv items rules first items"
  unfolding closure_inv_def by (intro exI [of _ "[]"]) simp

text \<open>
  Claim C4. Let the terms of the kernel, the rules and the table have distinct names (the
  item order compares terms by name). When \<open>closure\<close> returns, its result holds the
  kernel items and the added items and nothing else; every added item has the dot at 0
  and a rule of the grammar; no two added items agree in rule and lookahead, and none
  agrees in rule, dot and lookahead with a kernel item, so that an item was added only
  when no item equal to it (in rule, dot, lookahead and precedence stack) was in the set;
  and the result is sorted by the canonical item ordering: its keys (rule, dot, lookahead,
  precedence stack) ascend in the lexicographic order, and \<open>Pos.cmp\<close> of an item and a
  later one is never positive.
\<close>

theorem closure_dedup_sorted:
  assumes ret: "closure items rules first = Inr out"
    and names: "inj_on name (grammar_terms items rules first)"
  shows "(\<exists>added. mset out = mset items + mset added \<and>
            distinct (map (\<lambda>p. (rule p, ahead p)) added) \<and>
            list_all (\<lambda>p. pos p = 0 \<and> rule p \<in> set rules \<and>
               \<not> list_ex (\<lambda>q. rule q = rule p \<and> pos q = 0 \<and> ahead q = ahead p) items) added) \<and>
         sorted (map pos_key out) \<and>
         sorted_wrt (\<lambda>a b. pos_cmp a b \<le> 0) out"
proof -
  from ret obtain raw where raw: "closure_loop 0 items rules first = Inr raw"
    and out: "out = sort_by pos_cmp raw"
    by (auto simp: closure_def split: sum.splits)
  from closure_loop_inv [OF raw closure_inv_start] have inv: "closure_inv items rules first raw" .
  then obtain added where r: "raw = items @ added"
    and d: "distinct (map (\<lambda>p. (rule p, ahead p)) added)"
    and a: "\<forall>p\<in>set added. pos p = 0 \<and> rule p \<in> set rules \<and>
           ahead p \<in> grammar_terms items rules first \<and> (rule p, ahead p) \<notin> item_keys items"
    unfolding closure_inv_def by blast
  have "mset out = mset items + mset added"
    unfolding out r by (simp add: mset_sort_by)
  moreover have "list_all (\<lambda>p. pos p = 0 \<and> rule p \<in> set rules \<and>
               \<not> list_ex (\<lambda>q. rule q = rule p \<and> pos q = 0 \<and> ahead q = ahead p) items) added"
    unfolding list_all_iff using a by (auto simp: no_item_iff)
  moreover have "sorted (map pos_key out)"
    unfolding out using names closure_inv_terms [OF inv]
    by (intro sorted_pos_key [of "grammar_terms items rules first"]) auto
  moreover have "sorted_wrt (\<lambda>a b. pos_cmp a b \<le> 0) out"
    unfolding out using names closure_inv_terms [OF inv]
    by (intro sorted_wrt_pos_cmp [of "grammar_terms items rules first"]) auto
  ultimately show ?thesis using d by blast
qed
text \<open>The grammar \<open>S -> A x\<close>, \<open>A -> y\<close> and the kernel \<open>[S -> . A x, $]\<close>.\<close>

definition g_term :: "string \<Rightarrow> nat \<Rightarrow> Term" where
  "g_term n f = \<lparr>name = n, flags = f, tag = None\<rparr>"

definition g_rules :: "Rule list" where
  "g_rules = [\<lparr>rule_name = g_term ''S'' 0, parts = [g_term ''A'' 0, g_term ''x'' 1], rule_precedence = []\<rparr>,
              \<lparr>rule_name = g_term ''A'' 0, parts = [g_term ''y'' 1], rule_precedence = []\<rparr>]"

definition g_first :: first_table where
  "g_first = [(''S'', [Some (g_term ''y'' 1)]), (''A'', [Some (g_term ''y'' 1)])]"

definition g_kernel :: "Pos list" where
  "g_kernel = [\<lparr>rule = g_rules ! 0, pos = 0, ahead = g_term ''$'' 3, prec = []\<rparr>]"

definition g_closed :: "Pos list" where
  "g_closed = [\<lparr>rule = g_rules ! 1, pos = 0, ahead = g_term ''x'' 1, prec = []\<rparr>,
               \<lparr>rule = g_rules ! 0, pos = 0, ahead = g_term ''$'' 3, prec = []\<rparr>]"

lemma g_closure: "closure g_kernel g_rules g_first = Inr g_closed"
  by (simp add: closure_def closure_loop.simps g_kernel_def g_rules_def g_first_def g_closed_def
      g_term_def next_term_def terminal_def TERMINAL_def termsAhead_def precAt_def sort_by_def
      pos_cmp_def cmpSimple_def rule_cmp_def term_cmp_def orelse_def)

lemma g_names: "inj_on name (grammar_terms g_kernel g_rules g_first)"
proof -
  let ?ts = "[g_term ''S'' 0, g_term ''A'' 0, g_term ''x'' 1, g_term ''y'' 1, g_term ''$'' 3]"
  have "grammar_terms g_kernel g_rules g_first \<subseteq> set ?ts"
    by (auto simp: grammar_terms_def item_terms_def table_terms_def g_kernel_def g_rules_def
        g_first_def)
  moreover have "distinct (map name ?ts)" by (simp add: g_term_def)
  then have "inj_on name (set ?ts)" by (simp only: distinct_map)
  ultimately show ?thesis by (rule inj_on_subset [rotated])
qed

theorem closure_dedup_sorted_witness:
  "closure g_kernel g_rules g_first = Inr g_closed \<and>
   sorted (map pos_key g_closed) \<and>
   sorted_wrt (\<lambda>a b. pos_cmp a b \<le> 0) g_closed"
  using closure_dedup_sorted [OF g_closure g_names] g_closure by simp

subsection \<open>computeFirst\<close>

text \<open>\<open>add(value, array)\<close>: push unless the array includes the value.\<close>

definition add :: "'a \<Rightarrow> 'a list \<Rightarrow> 'a list" where
  "add v arr = (if v \<in> set arr then arr else arr @ [v])"

text \<open>
  The innermost loop, over the entry of a non-terminal part: \<open>null\<close> clears \<open>found\<close>, a
  term is added to the set of the rule's left-hand side.
\<close>

fun first_scan :: "Term option list \<Rightarrow> Term option list \<Rightarrow> bool \<Rightarrow> Term option list \<times> bool" where
  "first_scan [] s found = (s, found)"
| "first_scan (None # ts) s found = first_scan ts s False"
| "first_scan (Some t # ts) s found = first_scan ts (add (Some t) s) found"

text \<open>
  The loop over the parts of a rule. \<open>s\<close> is the array of the left-hand side, which the
  loop extends in place; the entry of a part with the name of the left-hand side is that
  same array. The result is the array and the last value of \<open>found\<close>.
\<close>

fun walk_parts :: "first_table \<Rightarrow> string \<Rightarrow> Term list \<Rightarrow> Term option list \<Rightarrow>
    error + (Term option list \<times> bool)" where
  "walk_parts table lhs [] s = Inr (s, False)"
| "walk_parts table lhs (part # rest) s =
     (if terminal part then Inr (add (Some part) s, True)
      else
        (case (if name part = lhs then Some s else map_of table (name part)) of
           None \<Rightarrow> Inl TypeError
         | Some src \<Rightarrow>
             (case first_scan src s True of
                (s', found) \<Rightarrow> if found then Inr (s', True) else walk_parts table lhs rest s')))"

text \<open>One round of the loop over the rules: the table after it, and whether the set grew.\<close>

definition rule_step :: "first_table \<Rightarrow> Rule \<Rightarrow> error + (first_table \<times> bool)" where
  "rule_step table r =
     (case map_of table (name (rule_name r)) of
        None \<Rightarrow> Inl TypeError
      | Some s \<Rightarrow>
          (case walk_parts table (name (rule_name r)) (parts r) s of
             Inl e \<Rightarrow> Inl e
           | Inr (s1, found) \<Rightarrow>
               let s2 = (if \<not> found then add None s1 else s1)
               in Inr (AList.update (name (rule_name r)) s2 table, length s2 > length s)))"

fun first_pass :: "Rule list \<Rightarrow> first_table \<Rightarrow> bool \<Rightarrow> error + (first_table \<times> bool)" where
  "first_pass [] table change = Inr (table, change)"
| "first_pass (r # rs) table change =
     (case rule_step table r of
        Inl e \<Rightarrow> Inl e
      | Inr (table', grew) \<Rightarrow> first_pass rs table' (change \<or> grew))"

definition first_init :: "Term list \<Rightarrow> first_table" where
  "first_init nonTerminals = foldl (\<lambda>table t. AList.update (name t) [] table) [] nonTerminals"
text \<open>
  Why the fixpoint loop ends: the arrays only grow, by elements they do not hold yet, and
  all elements come from a finite universe (\<open>null\<close>, the parts of the rules and what the
  table holds).
\<close>

definition extends :: "'a list \<Rightarrow> 'a list \<Rightarrow> bool" where
  "extends xs ys \<longleftrightarrow> (\<exists>zs. ys = xs @ zs \<and> distinct zs \<and> set zs \<inter> set xs = {})"

definition table_elems :: "first_table \<Rightarrow> Term option set" where
  "table_elems table = (\<Union>e\<in>set table. set (snd e))"

definition first_universe :: "Rule list \<Rightarrow> first_table \<Rightarrow> Term option set" where
  "first_universe rules table =
     insert None (Some ` (\<Union>r\<in>set rules. set (parts r)) \<union> table_elems table)"

definition room :: "Term option set \<Rightarrow> first_table \<Rightarrow> nat" where
  "room U table = sum_list (map (\<lambda>e. card (U - set (snd e))) table)"

definition first_measure :: "Rule list \<times> first_table \<Rightarrow> nat" where
  "first_measure = (\<lambda>(rules, table). room (first_universe rules table) table)"

lemma extends_refl: "extends xs xs"
  by (simp add: extends_def)

lemma extends_trans: "extends xs ys \<Longrightarrow> extends ys zs \<Longrightarrow> extends xs zs"
  unfolding extends_def by (elim exE conjE) (rule exI [of _ "_ @ _"], auto)

lemma extends_add: "extends xs (add v xs)"
  by (auto simp: extends_def add_def)

lemma extends_set: "extends xs ys \<Longrightarrow> set xs \<subseteq> set ys"
  by (auto simp: extends_def)

lemma extends_same_length: "extends xs ys \<Longrightarrow> \<not> length xs < length ys \<Longrightarrow> ys = xs"
  by (auto simp: extends_def)

lemma extends_longer: "extends xs ys \<Longrightarrow> length xs < length ys \<Longrightarrow> set xs \<subset> set ys"
proof -
  assume e: "extends xs ys" and l: "length xs < length ys"
  then obtain zs where z: "ys = xs @ zs" "set zs \<inter> set xs = {}" by (auto simp: extends_def)
  with l have "zs \<noteq> []" by auto
  then obtain x where "x \<in> set zs" by (cases zs) auto
  with z show ?thesis by auto
qed

lemma set_add: "set (add v xs) = insert v (set xs)"
  by (auto simp: add_def)

lemma first_scan_extends:
  "first_scan ts s f = (s', f') \<Longrightarrow>
   extends s s' \<and> set s' \<subseteq> set s \<union> (set ts - {None})"
proof (induction ts s f rule: first_scan.induct)
  case (1 s found)
  then show ?case by (simp add: extends_refl)
next
  case (2 ts s found)
  then show ?case by auto
next
  case (3 t ts s found)
  then have "extends (add (Some t) s) s'"
    and "set s' \<subseteq> set (add (Some t) s) \<union> (set ts - {None})" by simp_all
  then show ?case
    using extends_trans [OF extends_add [of s "Some t"]] by (auto simp: set_add)
qed

lemma map_of_table_elems: "map_of table n = Some v \<Longrightarrow> set v \<subseteq> table_elems table"
  by (force simp: table_elems_def dest: map_of_SomeD)

lemma walk_parts_extends:
  "walk_parts table lhs ps s = Inr (s1, found) \<Longrightarrow>
   extends s s1 \<and> set s1 \<subseteq> set s \<union> Some ` set ps \<union> (table_elems table - {None})"
proof (induction table lhs ps s rule: walk_parts.induct)
  case (1 table lhs s)
  then show ?case by (simp add: extends_refl)
next
  case (2 table lhs part rest s)
  show ?case
  proof (cases "terminal part")
    case True
    with "2.prems" have "s1 = add (Some part) s" by simp
    then show ?thesis by (auto simp: extends_add set_add)
  next
    case False
    let ?look = "if name part = lhs then Some s else map_of table (name part)"
    from False "2.prems" obtain src where src: "?look = Some src"
      by (cases ?look) auto
    obtain s' f where sc: "first_scan src s True = (s', f)"
      by (cases "first_scan src s True")
    from first_scan_extends [OF sc]
    have e1: "extends s s'" and b1: "set s' \<subseteq> set s \<union> (set src - {None})" by simp_all
    have "set src \<subseteq> set s \<union> table_elems table"
      using src map_of_table_elems [of table "name part" src] by (auto split: if_splits)
    with b1 have b1': "set s' \<subseteq> set s \<union> (table_elems table - {None})" by auto
    show ?thesis
    proof (cases f)
      case True
      with False src sc "2.prems" have "s1 = s'" by simp
      with e1 b1' show ?thesis by auto
    next
      case f: False
      with False src sc "2.prems" have "walk_parts table lhs rest s' = Inr (s1, found)" by simp
      from "2.IH" [OF False src sc [symmetric] _ this] f
      have "extends s' s1" "set s1 \<subseteq> set s' \<union> Some ` set rest \<union> (table_elems table - {None})"
        by simp_all
      with e1 b1' show ?thesis by (auto intro: extends_trans)
    qed
  qed
qed

lemma rule_step_facts:
  assumes "rule_step table r = Inr (table', grew)"
  obtains s s2 where "map_of table (name (rule_name r)) = Some s"
    and "table' = AList.update (name (rule_name r)) s2 table"
    and "extends s s2"
    and "set s2 \<subseteq> insert None (set s \<union> Some ` set (parts r) \<union> table_elems table)"
    and "grew \<longleftrightarrow> length s < length s2"
proof -
  from assms obtain s where s: "map_of table (name (rule_name r)) = Some s"
    by (auto simp: rule_step_def split: option.splits)
  with assms obtain s1 found where w: "walk_parts table (name (rule_name r)) (parts r) s = Inr (s1, found)"
    by (auto simp: rule_step_def split: sum.splits)
  let ?s2 = "if \<not> found then add None s1 else s1"
  from assms s w have t: "table' = AList.update (name (rule_name r)) ?s2 table"
    and g: "grew \<longleftrightarrow> length s < length ?s2"
    by (auto simp: rule_step_def Let_def)
  from walk_parts_extends [OF w] have e: "extends s s1"
    and b: "set s1 \<subseteq> set s \<union> Some ` set (parts r) \<union> (table_elems table - {None})" by simp_all
  have "extends s ?s2" using e extends_add [of s1 None] by (auto intro: extends_trans)
  moreover have "set ?s2 \<subseteq> insert None (set s \<union> Some ` set (parts r) \<union> table_elems table)"
    using b by (auto simp: set_add)
  ultimately show ?thesis using s t g that by blast
qed

lemma table_elems_update:
  "map_of al k = Some v0 \<Longrightarrow> set v0 \<subseteq> set v \<Longrightarrow>
   table_elems (AList.update k v al) = table_elems al \<union> set v"
proof (induction al)
  case Nil
  then show ?case by simp
next
  case (Cons e al)
  then show ?case
    by (cases e) (auto simp: table_elems_def split: if_splits)
qed

lemma room_update:
  "map_of al k = Some v0 \<Longrightarrow>
   room U (AList.update k v al) + card (U - set v0) = room U al + card (U - set v)"
proof (induction al)
  case Nil
  then show ?case by simp
next
  case (Cons e al)
  then show ?case
    by (cases e) (auto simp: room_def split: if_splits)
qed

lemma finite_first_universe: "finite (first_universe rules table)"
  by (simp add: first_universe_def table_elems_def)

lemma rule_step_measure:
  assumes "rule_step table r = Inr (table', grew)" "r \<in> set rules"
  shows "first_universe rules table' = first_universe rules table \<and>
         first_measure (rules, table') \<le> first_measure (rules, table) \<and>
         (grew \<longrightarrow> first_measure (rules, table') < first_measure (rules, table))"
proof -
  let ?U = "first_universe rules table"
  from assms(1) obtain s s2 where s: "map_of table (name (rule_name r)) = Some s"
    and t: "table' = AList.update (name (rule_name r)) s2 table"
    and e: "extends s s2"
    and b: "set s2 \<subseteq> insert None (set s \<union> Some ` set (parts r) \<union> table_elems table)"
    and g: "grew \<longleftrightarrow> length s < length s2"
    by (rule rule_step_facts)
  have sU: "set s \<subseteq> ?U"
    using map_of_table_elems [OF s] by (auto simp: first_universe_def)
  have s2U: "set s2 \<subseteq> ?U"
    using b map_of_table_elems [OF s] assms(2) by (auto simp: first_universe_def)
  have sub: "set s \<subseteq> set s2" using e by (rule extends_set)
  have "table_elems table' = table_elems table \<union> set s2"
    unfolding t using s sub by (rule table_elems_update)
  with s2U have U: "first_universe rules table' = ?U"
    by (auto simp: first_universe_def)
  have fin: "finite ?U" by (rule finite_first_universe)
  have r: "room ?U table' + card (?U - set s) = room ?U table + card (?U - set s2)"
    unfolding t using s by (rule room_update)
  have le: "card (?U - set s2) \<le> card (?U - set s)"
    using sub fin by (intro card_mono) auto
  have lt: "card (?U - set s2) < card (?U - set s)" if grew
  proof -
    from that g e have "set s \<subset> set s2" by (simp add: extends_longer)
    with s2U have "?U - set s2 \<subset> ?U - set s" by auto
    with fin show ?thesis by (intro psubset_card_mono) auto
  qed
  from r le lt U show ?thesis
    by (auto simp: first_measure_def)
qed

lemma first_pass_measure:
  assumes "first_pass rs table change = Inr (table', change')" "set rs \<subseteq> set rules"
  shows "first_universe rules table' = first_universe rules table \<and>
         first_measure (rules, table') \<le> first_measure (rules, table) \<and>
         (change' \<and> \<not> change \<longrightarrow> first_measure (rules, table') < first_measure (rules, table))"
  using assms
proof (induction rs arbitrary: table change)
  case Nil
  then show ?case by simp
next
  case (Cons r rs)
  from Cons.prems(1) obtain t1 grew where st: "rule_step table r = Inr (t1, grew)"
    and rest: "first_pass rs t1 (change \<or> grew) = Inr (table', change')"
    by (auto split: sum.splits)
  from Cons.prems(2) have r: "r \<in> set rules" and rs: "set rs \<subseteq> set rules" by simp_all
  from rule_step_measure [OF st r] Cons.IH [OF rest rs]
  show ?case by auto
qed

lemma first_pass_decreases:
  "first_pass rules table False = Inr (table', True) \<Longrightarrow>
   first_measure (rules, table') < first_measure (rules, table)"
  using first_pass_measure [of rules table False table' True rules] by simp

text \<open>The fixpoint loop: passes over the rules until a pass changes nothing.\<close>

function computeFirst_loop :: "Rule list \<Rightarrow> first_table \<Rightarrow> error + first_table" where
  "computeFirst_loop rules table =
     (case first_pass rules table False of
        Inl e \<Rightarrow> Inl e
      | Inr (table', change) \<Rightarrow>
          if \<not> change then Inr table' else computeFirst_loop rules table')"
  by pat_completeness auto
termination
  apply (relation "measure first_measure")
   apply simp
  apply clarsimp
  apply (erule first_pass_decreases)
  done

declare computeFirst_loop.simps [simp del]

definition computeFirst :: "Rule list \<Rightarrow> Term list \<Rightarrow> error + first_table" where
  "computeFirst rules nonTerminals = computeFirst_loop rules (first_init nonTerminals)"
subsection \<open>Derivations\<close>

text \<open>
  One derivation step replaces the left-hand side of a rule, somewhere in a sentential
  form, by the parts of the rule; a derivation is a sequence of steps.
\<close>

definition derives1 :: "Rule list \<Rightarrow> Term list \<Rightarrow> Term list \<Rightarrow> bool" where
  "derives1 rules u v \<longleftrightarrow>
     (\<exists>r\<in>set rules. \<exists>\<alpha> \<beta>. u = \<alpha> @ rule_name r # \<beta> \<and> v = \<alpha> @ parts r @ \<beta>)"

definition derives :: "Rule list \<Rightarrow> Term list \<Rightarrow> Term list \<Rightarrow> bool" where
  "derives rules = (derives1 rules)\<^sup>*\<^sup>*"

text \<open>
  The grammars \<open>computeFirst\<close> is meant for: the non-terminals have distinct names and
  are not terminals, every rule is for one of them, and every part of a rule that is not
  a terminal is one of them.
\<close>

definition grammar_ok :: "Rule list \<Rightarrow> Term list \<Rightarrow> bool" where
  "grammar_ok rules nts \<longleftrightarrow>
     list_all (\<lambda>a. list_all (\<lambda>b. name a = name b \<longrightarrow> a = b) nts) nts \<and>
     list_all (\<lambda>N. \<not> terminal N) nts \<and>
     list_all (\<lambda>r. rule_name r \<in> set nts \<and>
                    list_all (\<lambda>p. \<not> terminal p \<longrightarrow> p \<in> set nts) (parts r)) rules"

lemma derives1_append_left: "derives1 rules u v \<Longrightarrow> derives1 rules (w @ u) (w @ v)"
  unfolding derives1_def
  by (elim bexE exE conjE) (rule bexI, rule exI [of _ "w @ _"], auto)

lemma derives1_append_right: "derives1 rules u v \<Longrightarrow> derives1 rules (u @ w) (v @ w)"
  unfolding derives1_def
  by (elim bexE exE conjE) (rule bexI, rule exI, rule exI [of _ "_ @ w"], auto)

lemma derives_append_left: "derives rules u v \<Longrightarrow> derives rules (w @ u) (w @ v)"
  unfolding derives_def
  by (induction rule: rtranclp_induct) (auto intro: derives1_append_left rtranclp.rtrancl_into_rtrancl)

lemma derives_append_right: "derives rules u v \<Longrightarrow> derives rules (u @ w) (v @ w)"
  unfolding derives_def
  by (induction rule: rtranclp_induct) (auto intro: derives1_append_right rtranclp.rtrancl_into_rtrancl)

lemma derives_trans: "derives rules u v \<Longrightarrow> derives rules v w \<Longrightarrow> derives rules u w"
  unfolding derives_def by simp

lemma derives_rule: "r \<in> set rules \<Longrightarrow> derives rules [rule_name r] (parts r)"
  unfolding derives_def derives1_def
  by (rule r_into_rtranclp) (rule bexI, rule exI [of _ "[]"], rule exI [of _ "[]"], auto)

lemma derives_all_empty:
  "(\<And>X. X \<in> set \<gamma> \<Longrightarrow> derives rules [X] []) \<Longrightarrow> derives rules \<gamma> []"
proof (induction \<gamma>)
  case Nil
  then show ?case by (simp add: derives_def)
next
  case (Cons X \<gamma>)
  have "derives rules ([X] @ \<gamma>) ([] @ \<gamma>)"
    using Cons.prems by (intro derives_append_right) simp
  moreover have "derives rules \<gamma> []" using Cons by simp
  ultimately show ?case using derives_trans by fastforce
qed

lemma relpow_derives: "(derives1 rules ^^ n) u v \<Longrightarrow> derives rules u v"
  unfolding derives_def by (rule relpowp_imp_rtranclp)

lemma derives_relpow: "derives rules u v \<Longrightarrow> \<exists>n. (derives1 rules ^^ n) u v"
  unfolding derives_def by (simp add: rtranclp_power)

text \<open>A derivation from \<open>u @ v\<close> is a derivation from \<open>u\<close> beside one from \<open>v\<close>.\<close>

lemma derives1_split:
  assumes "derives1 rules (u @ v) w"
  shows "(\<exists>u'. w = u' @ v \<and> derives1 rules u u') \<or> (\<exists>v'. w = u @ v' \<and> derives1 rules v v')"
proof -
  from assms obtain r \<alpha> \<beta> where r: "r \<in> set rules"
    and uv: "u @ v = \<alpha> @ rule_name r # \<beta>" and w: "w = \<alpha> @ parts r @ \<beta>"
    unfolding derives1_def by blast
  from uv consider (left) us where "u = \<alpha> @ rule_name r # us" "\<beta> = us @ v"
    | (right) vs where "\<alpha> = u @ vs" "v = vs @ rule_name r # \<beta>"
    by (auto simp: append_eq_append_conv2 append_eq_Cons_conv Cons_eq_append_conv)
  then show ?thesis
  proof cases
    case left
    then have "derives1 rules u (\<alpha> @ parts r @ us)"
      using r unfolding derives1_def by blast
    with left w show ?thesis by auto
  next
    case right
    then have "derives1 rules v (vs @ parts r @ \<beta>)"
      using r unfolding derives1_def by blast
    with right w show ?thesis by auto
  qed
qed

lemma relpow_split:
  "(derives1 rules ^^ n) (u @ v) w \<Longrightarrow>
   \<exists>w1 w2 k l. w = w1 @ w2 \<and> k + l = n \<and> (derives1 rules ^^ k) u w1 \<and> (derives1 rules ^^ l) v w2"
proof (induction n arbitrary: w)
  case 0
  then show ?case by auto
next
  case (Suc n)
  from Suc.prems obtain w' where w': "(derives1 rules ^^ n) (u @ v) w'" and st: "derives1 rules w' w"
    by auto
  from Suc.IH [OF w'] obtain w1 w2 k l where s: "w' = w1 @ w2" "k + l = n"
    "(derives1 rules ^^ k) u w1" "(derives1 rules ^^ l) v w2" by blast
  from st s(1) derives1_split [of rules w1 w2 w]
  consider w1' where "w = w1' @ w2" "derives1 rules w1 w1'"
    | w2' where "w = w1 @ w2'" "derives1 rules w2 w2'" by auto
  then show ?case
  proof cases
    case 1
    with s have "(derives1 rules ^^ Suc k) u w1'" by auto
    with 1 s show ?thesis
      by (intro exI [of _ w1'] exI [of _ w2] exI [of _ "Suc k"] exI [of _ l]) simp
  next
    case 2
    with s have "(derives1 rules ^^ Suc l) v w2'" by auto
    with 2 s show ?thesis
      by (intro exI [of _ w1] exI [of _ w2'] exI [of _ k] exI [of _ "Suc l"]) simp
  qed
qed

lemma relpow_single:
  assumes "(derives1 rules ^^ Suc n) [N] w"
  shows "\<exists>r\<in>set rules. rule_name r = N \<and> (derives1 rules ^^ n) (parts r) w"
proof -
  from relpowp_Suc_D2 [OF assms]
  obtain v where st: "derives1 rules [N] v" and rest: "(derives1 rules ^^ n) v w"
    by blast
  from st obtain r \<alpha> \<beta> where r: "r \<in> set rules" "[N] = \<alpha> @ rule_name r # \<beta>" "v = \<alpha> @ parts r @ \<beta>"
    unfolding derives1_def by blast
  from r(2) have "\<alpha> = []" "\<beta> = []" "rule_name r = N"
    by (auto simp: Cons_eq_append_conv)
  with r rest show ?thesis by auto
qed

lemma relpow_empty_parts:
  "(derives1 rules ^^ n) \<gamma> [] \<Longrightarrow> X \<in> set \<gamma> \<Longrightarrow> \<exists>k\<le>n. (derives1 rules ^^ k) [X] []"
proof (induction \<gamma> arbitrary: n)
  case Nil
  then show ?case by simp
next
  case (Cons Y \<gamma>)
  from Cons.prems(1) have "(derives1 rules ^^ n) ([Y] @ \<gamma>) []" by simp
  from relpow_split [OF this] obtain k l where kl: "k + l = n"
    "(derives1 rules ^^ k) [Y] []" "(derives1 rules ^^ l) \<gamma> []" by auto
  show ?case
  proof (cases "X = Y")
    case True
    with kl show ?thesis by (intro exI [of _ k]) simp
  next
    case False
    with Cons.prems have "X \<in> set \<gamma>" by simp
    from Cons.IH [OF kl(3) this] obtain j where "j \<le> l" "(derives1 rules ^^ j) [X] []" by blast
    with kl show ?thesis by (intro exI [of _ j]) simp
  qed
qed

lemma relpow_first_part:
  "(derives1 rules ^^ n) \<gamma> (t # \<beta>) \<Longrightarrow>
   \<exists>\<alpha> X \<delta> k \<beta>'. \<gamma> = \<alpha> @ X # \<delta> \<and> (\<forall>Y\<in>set \<alpha>. \<exists>j\<le>n. (derives1 rules ^^ j) [Y] []) \<and>
      k \<le> n \<and> (derives1 rules ^^ k) [X] (t # \<beta>')"
proof (induction \<gamma> arbitrary: n \<beta>)
  case Nil
  then show ?case
  proof (cases n)
    case 0
    with Nil show ?thesis by simp
  next
    case (Suc m)
    with Nil have "(derives1 rules ^^ Suc m) [] (t # \<beta>)" by simp
    from relpowp_Suc_D2 [OF this] obtain v where "derives1 rules [] v" by blast
    then show ?thesis by (simp add: derives1_def)
  qed
next
  case (Cons Y \<gamma>)
  from Cons.prems have "(derives1 rules ^^ n) ([Y] @ \<gamma>) (t # \<beta>)" by simp
  from relpow_split [OF this] obtain w1 w2 k l where s: "t # \<beta> = w1 @ w2" "k + l = n"
    "(derives1 rules ^^ k) [Y] w1" "(derives1 rules ^^ l) \<gamma> w2" by blast
  show ?case
  proof (cases w1)
    case Nil
    with s have w2: "(derives1 rules ^^ l) \<gamma> (t # \<beta>)" and y: "(derives1 rules ^^ k) [Y] []" by simp_all
    from Cons.IH [OF w2] obtain \<alpha> X \<delta> j \<beta>' where i: "\<gamma> = \<alpha> @ X # \<delta>"
      "\<forall>Z\<in>set \<alpha>. \<exists>j\<le>l. (derives1 rules ^^ j) [Z] []" "j \<le> l" "(derives1 rules ^^ j) [X] (t # \<beta>')"
      by blast
    have "\<forall>Z\<in>set (Y # \<alpha>). \<exists>j\<le>n. (derives1 rules ^^ j) [Z] []"
    proof
      fix Z assume "Z \<in> set (Y # \<alpha>)"
      then consider "Z = Y" | "Z \<in> set \<alpha>" by auto
      then show "\<exists>j\<le>n. (derives1 rules ^^ j) [Z] []"
      proof cases
        case 1
        with y s(2) show ?thesis by (intro exI [of _ k]) simp
      next
        case 2
        with i(2) obtain j' where "j' \<le> l" "(derives1 rules ^^ j') [Z] []" by blast
        with s(2) show ?thesis by (intro exI [of _ j']) simp
      qed
    qed
    with i s(2) show ?thesis
      by (intro exI [of _ "Y # \<alpha>"] exI [of _ X] exI [of _ \<delta>] exI [of _ j] exI [of _ \<beta>']) simp
  next
    case (Cons a w1')
    with s have "a = t" "(derives1 rules ^^ k) [Y] (t # w1')" by simp_all
    with s(2) show ?thesis
      by (intro exI [of _ "[]"] exI [of _ Y] exI [of _ \<gamma>] exI [of _ k] exI [of _ w1']) simp
  qed
qed
subsection \<open>The table during and after the fixpoint loop\<close>

definition entry :: "first_table \<Rightarrow> Term \<Rightarrow> Term option set" where
  "entry T p = (case map_of T (name p) of None \<Rightarrow> {} | Some fs \<Rightarrow> set fs)"

text \<open>
  The invariant of the loop: every non-terminal has an entry, and an entry holds \<open>null\<close>
  only if the non-terminal derives the empty string.
\<close>

definition first_inv :: "Rule list \<Rightarrow> Term list \<Rightarrow> first_table \<Rightarrow> bool" where
  "first_inv rules nts T \<longleftrightarrow>
     (\<forall>N\<in>set nts. \<exists>fs. map_of T (name N) = Some fs \<and> (None \<in> set fs \<longrightarrow> derives rules [N] []))"

text \<open>A table is closed when a round for any rule leaves it as it is.\<close>

definition closed :: "Rule list \<Rightarrow> first_table \<Rightarrow> bool" where
  "closed rules T \<longleftrightarrow> (\<forall>r\<in>set rules. rule_step T r = Inr (T, False))"

lemma grammar_okD:
  assumes "grammar_ok rules nts"
  shows "\<And>a b. a \<in> set nts \<Longrightarrow> b \<in> set nts \<Longrightarrow> name a = name b \<Longrightarrow> a = b"
    and "\<And>N. N \<in> set nts \<Longrightarrow> \<not> terminal N"
    and "\<And>r. r \<in> set rules \<Longrightarrow> rule_name r \<in> set nts"
    and "\<And>r p. r \<in> set rules \<Longrightarrow> p \<in> set (parts r) \<Longrightarrow> \<not> terminal p \<Longrightarrow> p \<in> set nts"
  using assms unfolding grammar_ok_def list_all_iff by blast+

lemma first_scan_result:
  "first_scan ts s f = (s', f') \<Longrightarrow>
   set s' = set s \<union> (set ts - {None}) \<and> (f' \<longleftrightarrow> f \<and> None \<notin> set ts)"
  by (induction ts s f rule: first_scan.induct) (auto simp: set_add)

lemma walk_parts_None:
  assumes "walk_parts T lhs ps s = Inr (s1, f)"
  shows "None \<in> set s1 \<longleftrightarrow> None \<in> set s"
  using walk_parts_extends [OF assms] extends_set [of s s1] by auto

lemma walk_parts_found_False:
  "walk_parts T lhs ps s = Inr (s1, False) \<Longrightarrow> p \<in> set ps \<Longrightarrow>
   \<not> terminal p \<and> (if name p = lhs then None \<in> set s1 else None \<in> entry T p)"
proof (induction T lhs ps s rule: walk_parts.induct)
  case (1 table lhs s)
  then show ?case by simp
next
  case (2 table lhs part rest s)
  from "2.prems"(1) have nt: "\<not> terminal part" by (auto split: if_splits)
  let ?look = "if name part = lhs then Some s else map_of table (name part)"
  from nt "2.prems"(1) obtain src where src: "?look = Some src"
    by (cases ?look) auto
  obtain s' f where sc: "first_scan src s True = (s', f)"
    by (cases "first_scan src s True")
  from nt src sc "2.prems"(1) have f: "\<not> f" and rest: "walk_parts table lhs rest s' = Inr (s1, False)"
    by (auto split: if_splits)
  from first_scan_result [OF sc] f have none: "None \<in> set src" and ss': "set s \<subseteq> set s'" by auto
  from walk_parts_extends [OF rest] have s's1: "set s' \<subseteq> set s1" by (auto dest: extends_set)
  show ?case
  proof (cases "p = part")
    case True
    show ?thesis
    proof (cases "name part = lhs")
      case l: True
      with src have "src = s" by simp
      with none ss' s's1 nt True l show ?thesis by auto
    next
      case l: False
      with src have "map_of table (name part) = Some src" by simp
      with none nt True l show ?thesis by (simp add: entry_def)
    qed
  next
    case False
    with "2.prems"(2) have "p \<in> set rest" by simp
    from "2.IH" [OF nt src sc [symmetric] _ rest this] f show ?thesis by simp
  qed
qed

lemma walk_parts_ok:
  "(\<And>p. p \<in> set ps \<Longrightarrow> \<not> terminal p \<Longrightarrow> name p = lhs \<or> map_of T (name p) \<noteq> None) \<Longrightarrow>
   \<exists>s1 f. walk_parts T lhs ps s = Inr (s1, f)"
proof (induction ps arbitrary: s)
  case Nil
  then show ?case by auto
next
  case (Cons part rest)
  show ?case
  proof (cases "terminal part")
    case True
    then show ?thesis by auto
  next
    case False
    let ?look = "if name part = lhs then Some s else map_of T (name part)"
    from Cons.prems [of part] False obtain src where src: "?look = Some src"
      by (cases "name part = lhs") auto
    obtain s' f where sc: "first_scan src s True = (s', f)"
      by (cases "first_scan src s True")
    have "\<exists>s1 f1. walk_parts T lhs rest s' = Inr (s1, f1)"
      by (rule Cons.IH) (use Cons.prems in auto)
    then obtain s1 f1 where r: "walk_parts T lhs rest s' = Inr (s1, f1)"
      by blast
    have "walk_parts T lhs (part # rest) s =
        (if f then Inr (s', True) else walk_parts T lhs rest s')"
      using False src sc by simp
    with r show ?thesis by (cases f) (auto simp del: walk_parts.simps)
  qed
qed

lemma update_same: "map_of al k = Some v \<Longrightarrow> AList.update k v al = al"
  by (induction al) (auto split: if_splits)

lemma rule_step_inv:
  assumes ok: "grammar_ok rules nts" and r: "r \<in> set rules" and inv: "first_inv rules nts T"
  shows "\<exists>T' g. rule_step T r = Inr (T', g) \<and> first_inv rules nts T'"
proof -
  let ?N = "rule_name r" and ?lhs = "name (rule_name r)"
  have N: "?N \<in> set nts" using ok r by (rule grammar_okD(3))
  with inv obtain s where s: "map_of T ?lhs = Some s"
    and sn: "None \<in> set s \<Longrightarrow> derives rules [?N] []"
    unfolding first_inv_def by blast
  have "\<exists>s1 f. walk_parts T ?lhs (parts r) s = Inr (s1, f)"
  proof (rule walk_parts_ok)
    fix p assume "p \<in> set (parts r)" "\<not> terminal p"
    with ok r have "p \<in> set nts" by (rule grammar_okD(4))
    with inv show "name p = ?lhs \<or> map_of T (name p) \<noteq> None"
      unfolding first_inv_def by auto
  qed
  then obtain s1 found where w: "walk_parts T ?lhs (parts r) s = Inr (s1, found)" by blast
  let ?s2 = "if \<not> found then add None s1 else s1"
  let ?T' = "AList.update ?lhs ?s2 T"
  have step: "rule_step T r = Inr (?T', length s < length ?s2)"
    using s w by (simp add: rule_step_def Let_def)
  have null: "derives rules [?N] []" if n2: "None \<in> set ?s2"
  proof (cases found)
    case True
    with n2 have "None \<in> set s1" by simp
    with walk_parts_None [OF w] sn show ?thesis by simp
  next
    case False
    have "derives rules [p] []" if p: "p \<in> set (parts r)" for p
    proof -
      from False w have w': "walk_parts T ?lhs (parts r) s = Inr (s1, False)" by simp
      from walk_parts_found_False [OF w' p]
      have nt: "\<not> terminal p"
        and c: "if name p = ?lhs then None \<in> set s1 else None \<in> entry T p"
        by simp_all
      from ok r p nt have pn: "p \<in> set nts" by (rule grammar_okD(4))
      show ?thesis
      proof (cases "name p = ?lhs")
        case True
        with pn N ok have "p = ?N" by (auto dest: grammar_okD(1))
        moreover from True c walk_parts_None [OF w] have "None \<in> set s" by simp
        ultimately show ?thesis using sn by simp
      next
        case False
        with c have "None \<in> entry T p" by simp
        with inv pn show ?thesis unfolding first_inv_def entry_def by force
      qed
    qed
    then have "derives rules (parts r) []" by (rule derives_all_empty)
    with derives_rule [OF r] show ?thesis by (rule derives_trans)
  qed
  have "first_inv rules nts ?T'"
    unfolding first_inv_def
  proof
    fix M assume M: "M \<in> set nts"
    show "\<exists>fs. map_of ?T' (name M) = Some fs \<and> (None \<in> set fs \<longrightarrow> derives rules [M] [])"
    proof (cases "name M = ?lhs")
      case True
      with M N ok have "M = ?N" by (auto dest: grammar_okD(1))
      with null show ?thesis by (simp add: update_conv')
    next
      case False
      with inv M show ?thesis unfolding first_inv_def by (simp add: update_conv')
    qed
  qed
  with step show ?thesis by blast
qed

lemma first_pass_inv:
  assumes ok: "grammar_ok rules nts"
  shows "set rs \<subseteq> set rules \<Longrightarrow> first_inv rules nts T \<Longrightarrow>
   \<exists>T' c'. first_pass rs T c = Inr (T', c') \<and> first_inv rules nts T'"
proof (induction rs arbitrary: T c)
  case Nil
  then show ?case by simp
next
  case (Cons r rs)
  then have "r \<in> set rules" by simp
  from rule_step_inv [OF ok this Cons.prems(2)] obtain T1 g
    where st: "rule_step T r = Inr (T1, g)" and i1: "first_inv rules nts T1" by blast
  from Cons.IH [OF _ i1, of "c \<or> g"] Cons.prems(1) st show ?case by auto
qed

lemma rule_step_same:
  assumes "rule_step T r = Inr (T1, False)"
  shows "T1 = T"
proof -
  from assms obtain s s2 where s: "map_of T (name (rule_name r)) = Some s"
    and t: "T1 = AList.update (name (rule_name r)) s2 T"
    and e: "extends s s2" and g: "\<not> length s < length s2"
    by (rule rule_step_facts) simp
  from extends_same_length [OF e g] s t show ?thesis by (simp add: update_same)
qed

lemma first_pass_unchanged:
  "first_pass rs T c = Inr (T', False) \<Longrightarrow>
   T' = T \<and> \<not> c \<and> (\<forall>r\<in>set rs. rule_step T r = Inr (T, False))"
proof (induction rs arbitrary: T c)
  case Nil
  then show ?case by simp
next
  case (Cons r rs)
  from Cons.prems obtain T1 g where st: "rule_step T r = Inr (T1, g)"
    and rest: "first_pass rs T1 (c \<or> g) = Inr (T', False)"
    by (auto split: sum.splits)
  from Cons.IH [OF rest] have a: "T' = T1" "\<not> c" "\<not> g" "\<forall>r\<in>set rs. rule_step T1 r = Inr (T1, False)"
    by auto
  with st have "T1 = T" by (auto dest: rule_step_same)
  with a st show ?case by auto
qed

lemma computeFirst_loop_result:
  "grammar_ok rules nts \<Longrightarrow> first_inv rules nts T \<Longrightarrow>
   \<exists>Tf. computeFirst_loop rules T = Inr Tf \<and> first_inv rules nts Tf \<and> closed rules Tf"
proof (induction rules T rule: computeFirst_loop.induct)
  case (1 rules T)
  note ok = "1.prems"(1)
  from first_pass_inv [OF ok _ "1.prems"(2), of rules False] obtain T' c'
    where p: "first_pass rules T False = Inr (T', c')" and i: "first_inv rules nts T'" by auto
  show ?case
  proof (cases c')
    case True
    with p have "computeFirst_loop rules T = computeFirst_loop rules T'"
      by (subst computeFirst_loop.simps) simp
    moreover from True have "\<not> \<not> c'" by simp
    from "1.IH" [OF p refl this ok i]
    have "\<exists>Tf. computeFirst_loop rules T' = Inr Tf \<and> first_inv rules nts Tf \<and> closed rules Tf" .
    ultimately show ?thesis by simp
  next
    case False
    with p have res: "computeFirst_loop rules T = Inr T'"
      by (subst computeFirst_loop.simps) simp
    from p False have "first_pass rules T False = Inr (T', False)" by simp
    from first_pass_unchanged [OF this] have "closed rules T'"
      by (simp add: closed_def)
    with res i show ?thesis by simp
  qed
qed

lemma map_of_first_init_aux:
  "map_of (foldl (\<lambda>table t. AList.update (name t) [] table) T ts) n =
     (if n \<in> name ` set ts then Some [] else map_of T n)"
  by (induction ts arbitrary: T) (auto simp: update_conv')

lemma first_inv_init: "first_inv rules nts (first_init nts)"
  by (simp add: first_inv_def first_init_def map_of_first_init_aux)
text \<open>What a closed table holds.\<close>

lemma closed_walk:
  assumes "rule_step T r = Inr (T, False)"
  shows "\<exists>s found. map_of T (name (rule_name r)) = Some s \<and>
           walk_parts T (name (rule_name r)) (parts r) s = Inr (s, found) \<and>
           (\<not> found \<longrightarrow> None \<in> set s)"
proof -
  let ?lhs = "name (rule_name r)"
  from assms obtain s where s: "map_of T ?lhs = Some s"
    by (auto simp: rule_step_def split: option.splits)
  with assms obtain s1 found where w: "walk_parts T ?lhs (parts r) s = Inr (s1, found)"
    by (auto simp: rule_step_def split: sum.splits)
  let ?s2 = "if \<not> found then add None s1 else s1"
  from assms s w have len: "\<not> length s < length ?s2"
    by (auto simp: rule_step_def Let_def)
  from walk_parts_extends [OF w] have e1: "extends s s1" by simp
  have e2: "extends s1 ?s2" by (simp add: extends_add extends_refl)
  from e1 e2 have "length s \<le> length s1" "length s1 \<le> length ?s2"
    by (auto simp: extends_def)
  with len have l1: "\<not> length s < length s1" and l2: "\<not> length s1 < length ?s2" by linarith+
  from extends_same_length [OF e1 l1] have s1: "s1 = s" .
  from extends_same_length [OF e2 l2] have "?s2 = s1" .
  then have "\<not> found \<longrightarrow> None \<in> set s1" by (auto simp: add_def split: if_splits)
  with s w s1 show ?thesis by auto
qed

lemma walk_parts_fixed:
  assumes "walk_parts T lhs ps s = Inr (s1, found)" "set s1 \<subseteq> set s"
    and "map_of T lhs = Some s0" "set s0 = set s"
  shows "((\<forall>p\<in>set ps. \<not> terminal p \<and> None \<in> entry T p) \<longrightarrow> \<not> found) \<and>
         (\<forall>\<alpha> X \<delta>. ps = \<alpha> @ X # \<delta> \<and> (\<forall>p\<in>set \<alpha>. \<not> terminal p \<and> None \<in> entry T p) \<longrightarrow>
            (terminal X \<longrightarrow> Some X \<in> set s) \<and>
            (\<not> terminal X \<longrightarrow> entry T X - {None} \<subseteq> set s))"
  using assms
proof (induction T lhs ps s rule: walk_parts.induct)
  case (1 table lhs s)
  then show ?case by simp
next
  case (2 table lhs part rest s)
  show ?case
  proof (cases "terminal part")
    case True
    with "2.prems"(1) have "s1 = add (Some part) s" by simp
    with "2.prems"(2) have in_s: "Some part \<in> set s" by (auto simp: set_add)
    have "(terminal X \<longrightarrow> Some X \<in> set s) \<and> (\<not> terminal X \<longrightarrow> entry table X - {None} \<subseteq> set s)"
      if "part # rest = \<alpha> @ X # \<delta>" "\<forall>p\<in>set \<alpha>. \<not> terminal p \<and> None \<in> entry table p"
      for \<alpha> X \<delta>
    proof (cases \<alpha>)
      case Nil
      with that True in_s show ?thesis by simp
    next
      case (Cons a as)
      with that True show ?thesis by simp
    qed
    with True show ?thesis by auto
  next
    case nt: False
    let ?look = "if name part = lhs then Some s else map_of table (name part)"
    from nt "2.prems"(1) obtain src where src: "?look = Some src"
      by (cases ?look) auto
    have ent: "entry table part = set src"
    proof (cases "name part = lhs")
      case True
      with src "2.prems"(3,4) show ?thesis by (simp add: entry_def)
    next
      case False
      with src show ?thesis by (simp add: entry_def)
    qed
    obtain s' f where sc: "first_scan src s True = (s', f)"
      by (cases "first_scan src s True")
    from first_scan_result [OF sc] have s': "set s' = set s \<union> (set src - {None})"
      and f: "f \<longleftrightarrow> None \<notin> set src" by simp_all
    show ?thesis
    proof (cases f)
      case True
      with nt src sc "2.prems"(1) have "s1 = s'" by simp
      with "2.prems"(2) s' have sub: "set src - {None} \<subseteq> set s" by auto
      have "(terminal X \<longrightarrow> Some X \<in> set s) \<and> (\<not> terminal X \<longrightarrow> entry table X - {None} \<subseteq> set s)"
        if "part # rest = \<alpha> @ X # \<delta>" "\<forall>p\<in>set \<alpha>. \<not> terminal p \<and> None \<in> entry table p"
        for \<alpha> X \<delta>
      proof (cases \<alpha>)
        case Nil
        with that nt sub ent show ?thesis by simp
      next
        case (Cons a as)
        with that ent f True show ?thesis by simp
      qed
      moreover have "\<not> (\<forall>p\<in>set (part # rest). \<not> terminal p \<and> None \<in> entry table p)"
        using ent f True by simp
      ultimately show ?thesis by blast
    next
      case False
      with nt src sc "2.prems"(1) have rest: "walk_parts table lhs rest s' = Inr (s1, found)"
        by simp
      from walk_parts_extends [OF rest] have "set s' \<subseteq> set s1" by (auto dest: extends_set)
      with "2.prems"(2) s' have eq: "set s' = set s" by auto
      from "2.IH" [OF nt src sc [symmetric] _ rest] False "2.prems"(2,3,4) eq
      have IH: "((\<forall>p\<in>set rest. \<not> terminal p \<and> None \<in> entry table p) \<longrightarrow> \<not> found) \<and>
         (\<forall>\<alpha> X \<delta>. rest = \<alpha> @ X # \<delta> \<and> (\<forall>p\<in>set \<alpha>. \<not> terminal p \<and> None \<in> entry table p) \<longrightarrow>
            (terminal X \<longrightarrow> Some X \<in> set s') \<and>
            (\<not> terminal X \<longrightarrow> entry table X - {None} \<subseteq> set s'))"
        by simp
      have "(terminal X \<longrightarrow> Some X \<in> set s) \<and> (\<not> terminal X \<longrightarrow> entry table X - {None} \<subseteq> set s)"
        if "part # rest = \<alpha> @ X # \<delta>" "\<forall>p\<in>set \<alpha>. \<not> terminal p \<and> None \<in> entry table p"
        for \<alpha> X \<delta>
      proof (cases \<alpha>)
        case Nil
        with that nt s' eq ent show ?thesis by auto
      next
        case (Cons a as)
        with that have "rest = as @ X # \<delta>" "\<forall>p\<in>set as. \<not> terminal p \<and> None \<in> entry table p"
          by simp_all
        with IH eq show ?thesis by blast
      qed
      with IH show ?thesis by auto
    qed
  qed
qed

lemma closed_rule:
  assumes "closed rules T" "r \<in> set rules"
  shows "((\<forall>p\<in>set (parts r). \<not> terminal p \<and> None \<in> entry T p) \<longrightarrow> None \<in> entry T (rule_name r)) \<and>
         (\<forall>\<alpha> X \<delta>. parts r = \<alpha> @ X # \<delta> \<and> (\<forall>p\<in>set \<alpha>. \<not> terminal p \<and> None \<in> entry T p) \<longrightarrow>
            (terminal X \<longrightarrow> Some X \<in> entry T (rule_name r)) \<and>
            (\<not> terminal X \<longrightarrow> entry T X - {None} \<subseteq> entry T (rule_name r)))"
proof -
  from assms have "rule_step T r = Inr (T, False)" by (simp add: closed_def)
  from closed_walk [OF this] obtain s found where s: "map_of T (name (rule_name r)) = Some s"
    and w: "walk_parts T (name (rule_name r)) (parts r) s = Inr (s, found)"
    and n: "\<not> found \<longrightarrow> None \<in> set s" by blast
  have e: "entry T (rule_name r) = set s" using s by (simp add: entry_def)
  from walk_parts_fixed [OF w _ s] n show ?thesis unfolding e by blast
qed

text \<open>Terminals are not rewritten.\<close>

lemma terminal_no_step:
  assumes "grammar_ok rules nts" "terminal X" "(derives1 rules ^^ k) [X] w"
  shows "k = 0 \<and> w = [X]"
proof (cases k)
  case 0
  with assms(3) show ?thesis by simp
next
  case (Suc m)
  with assms(3) have "(derives1 rules ^^ Suc m) [X] w" by simp
  from relpow_single [OF this] obtain r where "r \<in> set rules" "rule_name r = X" by blast
  with assms(1,2) show ?thesis by (auto dest: grammar_okD)
qed

lemma nullable_complete:
  assumes ok: "grammar_ok rules nts" and cl: "closed rules T"
  shows "(derives1 rules ^^ n) [N] [] \<Longrightarrow> None \<in> entry T N"
proof (induction n arbitrary: N rule: less_induct)
  case (less n)
  show ?case
  proof (cases n)
    case 0
    with less.prems show ?thesis by simp
  next
    case (Suc m)
    with less.prems have "(derives1 rules ^^ Suc m) [N] []" by simp
    from relpow_single [OF this] obtain r where r: "r \<in> set rules" "rule_name r = N"
      and d: "(derives1 rules ^^ m) (parts r) []" by blast
    have "\<not> terminal p \<and> None \<in> entry T p" if p: "p \<in> set (parts r)" for p
    proof -
      from relpow_empty_parts [OF d p] obtain k where k: "k \<le> m" "(derives1 rules ^^ k) [p] []"
        by blast
      have nt: "\<not> terminal p"
        using terminal_no_step [OF ok _ k(2)] by auto
      from k Suc have "k < n" by simp
      from less.IH [OF this k(2)] nt show ?thesis by simp
    qed
    with closed_rule [OF cl r(1)] r(2) show ?thesis by blast
  qed
qed

lemma first_complete:
  assumes ok: "grammar_ok rules nts" and cl: "closed rules T"
  shows "(derives1 rules ^^ n) [N] (t # \<beta>) \<Longrightarrow> N \<in> set nts \<Longrightarrow> terminal t \<Longrightarrow>
         Some t \<in> entry T N"
proof (induction n arbitrary: N \<beta> rule: less_induct)
  case (less n)
  show ?case
  proof (cases n)
    case 0
    with less.prems(1) have "N = t" by simp
    with less.prems(2,3) ok show ?thesis by (auto dest: grammar_okD(2))
  next
    case (Suc m)
    with less.prems have "(derives1 rules ^^ Suc m) [N] (t # \<beta>)" by simp
    from relpow_single [OF this] obtain r where r: "r \<in> set rules" "rule_name r = N"
      and d: "(derives1 rules ^^ m) (parts r) (t # \<beta>)" by blast
    from relpow_first_part [OF d] obtain \<alpha> X \<delta> k \<beta>' where dec: "parts r = \<alpha> @ X # \<delta>"
      and al: "\<forall>Y\<in>set \<alpha>. \<exists>j\<le>m. (derives1 rules ^^ j) [Y] []"
      and k: "k \<le> m" "(derives1 rules ^^ k) [X] (t # \<beta>')" by blast
    have al': "\<forall>p\<in>set \<alpha>. \<not> terminal p \<and> None \<in> entry T p"
    proof
      fix p assume "p \<in> set \<alpha>"
      with al obtain j where j: "(derives1 rules ^^ j) [p] []" by blast
      have "\<not> terminal p" using terminal_no_step [OF ok _ j] by auto
      with nullable_complete [OF ok cl j] show "\<not> terminal p \<and> None \<in> entry T p" by simp
    qed
    from closed_rule [OF cl r(1)] dec al' r(2)
    have X1: "terminal X \<Longrightarrow> Some X \<in> entry T N"
      and X2: "\<not> terminal X \<Longrightarrow> entry T X - {None} \<subseteq> entry T N" by blast+
    show ?thesis
    proof (cases "terminal X")
      case True
      from terminal_no_step [OF ok True k(2)] have "X = t" by simp
      with X1 True show ?thesis by simp
    next
      case False
      have "X \<in> set nts"
        using ok r(1) _ False by (rule grammar_okD(4)) (simp add: dec)
      moreover from k Suc have "k < n" by simp
      ultimately have "Some t \<in> entry T X" using less.IH k(2) less.prems(3) by blast
      with X2 [OF False] show ?thesis by auto
    qed
  qed
qed

text \<open>
  Claim C3. For a grammar whose non-terminals have distinct names and are the left-hand
  sides and non-terminal parts of its rules, \<open>computeFirst\<close> returns a table that has an
  entry for every non-terminal \<open>N\<close>; the entry holds every terminal \<open>t\<close> with a derivation
  of \<open>t \<beta>\<close> from \<open>N\<close>, and it holds the marker \<open>null\<close> if and only if \<open>N\<close> derives the
  empty string.
\<close>

theorem computeFirst_sound:
  assumes ok: "grammar_ok rules nts"
  shows "\<exists>table. computeFirst rules nts = Inr table \<and>
           (\<forall>N\<in>set nts. \<exists>fs. map_of table (name N) = Some fs \<and>
              (\<forall>t \<beta>. terminal t \<and> derives rules [N] (t # \<beta>) \<longrightarrow> Some t \<in> set fs) \<and>
              (None \<in> set fs \<longleftrightarrow> derives rules [N] []))"
proof -
  from computeFirst_loop_result [OF ok first_inv_init]
  obtain T where res: "computeFirst rules nts = Inr T" and inv: "first_inv rules nts T"
    and cl: "closed rules T"
    unfolding computeFirst_def by blast
  have "\<exists>fs. map_of T (name N) = Some fs \<and>
              (\<forall>t \<beta>. terminal t \<and> derives rules [N] (t # \<beta>) \<longrightarrow> Some t \<in> set fs) \<and>
              (None \<in> set fs \<longleftrightarrow> derives rules [N] [])" if N: "N \<in> set nts" for N
  proof -
    from inv N obtain fs where fs: "map_of T (name N) = Some fs"
      and n1: "None \<in> set fs \<longrightarrow> derives rules [N] []"
      unfolding first_inv_def by blast
    have e: "entry T N = set fs" using fs by (simp add: entry_def)
    have "Some t \<in> set fs" if "terminal t" "derives rules [N] (t # \<beta>)" for t \<beta>
    proof -
      from derives_relpow [OF that(2)] obtain n where "(derives1 rules ^^ n) [N] (t # \<beta>)" ..
      from first_complete [OF ok cl this N that(1)] e show ?thesis by simp
    qed
    moreover have "None \<in> set fs" if "derives rules [N] []"
    proof -
      from derives_relpow [OF that] obtain n where "(derives1 rules ^^ n) [N] []" ..
      from nullable_complete [OF ok cl this] e show ?thesis by simp
    qed
    ultimately show ?thesis using fs n1 by blast
  qed
  with res show ?thesis by blast
qed
text \<open>The grammar \<open>S -> A x\<close>, \<open>A -> | y\<close>: \<open>A\<close> derives the empty string.\<close>

definition n_rules :: "Rule list" where
  "n_rules = [\<lparr>rule_name = g_term ''S'' 0, parts = [g_term ''A'' 0, g_term ''x'' 1], rule_precedence = []\<rparr>,
              \<lparr>rule_name = g_term ''A'' 0, parts = [], rule_precedence = []\<rparr>,
              \<lparr>rule_name = g_term ''A'' 0, parts = [g_term ''y'' 1], rule_precedence = []\<rparr>]"

definition n_table :: first_table where
  "n_table = [(''S'', [Some (g_term ''y'' 1), Some (g_term ''x'' 1)]),
              (''A'', [None, Some (g_term ''y'' 1)])]"

lemma n_computeFirst: "computeFirst n_rules [g_term ''S'' 0, g_term ''A'' 0] = Inr n_table"
  by (simp add: computeFirst_def computeFirst_loop.simps first_init_def rule_step_def n_rules_def
      n_table_def g_term_def terminal_def TERMINAL_def add_def)

theorem computeFirst_sound_witness:
  "computeFirst n_rules [g_term ''S'' 0, g_term ''A'' 0] = Inr n_table \<and>
   derives n_rules [g_term ''A'' 0] []"
proof -
  have ok: "grammar_ok n_rules [g_term ''S'' 0, g_term ''A'' 0]"
    by (simp add: grammar_ok_def n_rules_def g_term_def terminal_def TERMINAL_def)
  from computeFirst_sound [OF ok] n_computeFirst
  have "\<exists>fs. map_of n_table (name (g_term ''A'' 0)) = Some fs \<and>
          (None \<in> set fs \<longleftrightarrow> derives n_rules [g_term ''A'' 0] [])"
    by auto
  then show ?thesis using n_computeFirst by (simp add: n_table_def g_term_def)
qed

subsection \<open>mergeState, markConflicts, hasConflict and collapseAutomaton\<close>

text \<open>
  \<open>Shift.map\<close> redirects a shift to the new state of its target, \<open>states[mapping[id]]\<close>,
  whose id is \<open>mapping[id]\<close>; \<open>Reduce.map\<close> is the identity. A target outside the mapping
  gives \<open>undefined\<close>, which equals no state: the model uses the number of new states, an
  id that no new state has.
\<close>

fun map_action :: "nat list \<Rightarrow> nat \<Rightarrow> Action \<Rightarrow> Action" where
  "map_action mapping n (Shift t s) = Shift t (if s < length mapping then mapping ! s else n)"
| "map_action mapping n (Reduce t r) = Reduce t r"

text \<open>
  The first loop of \<open>mergeState\<close>, from index \<open>j\<close> of the source state's actions: it stops
  with \<open>false\<close> at the first action the target refuses. The model raises where
  \<open>terminalPrec\<close> is shorter than \<open>terminals\<close> (the source passes \<open>undefined\<close> on to
  \<open>addAction\<close>).
\<close>

fun merge_terminals ::
  "nat list \<Rightarrow> nat \<Rightarrow> Action list \<Rightarrow> Precedence list list \<Rightarrow> State \<Rightarrow> error + (bool \<times> State)" where
  "merge_terminals mapping n [] ps target = Inr (True, target)"
| "merge_terminals mapping n (a # as) [] target = Inl TypeError"
| "merge_terminals mapping n (a # as) (p # ps) target =
     (case addAction target (map_action mapping n a) p None of
        Inl e \<Rightarrow> Inl e
      | Inr (ok, target') \<Rightarrow>
          if \<not> ok then Inr (False, target') else merge_terminals mapping n as ps target')"

fun merge_goto :: "nat list \<Rightarrow> nat \<Rightarrow> Action list \<Rightarrow> State \<Rightarrow> State" where
  "merge_goto mapping n [] target = target"
| "merge_goto mapping n (g # gs) target =
     merge_goto mapping n gs
       (if find (\<lambda>a. action_term a = action_term g) (goto target) = None
        then target\<lparr>goto := goto target @ [map_action mapping n g]\<rparr>
        else target)"

definition mergeState :: "nat list \<Rightarrow> nat \<Rightarrow> State \<Rightarrow> State \<Rightarrow> error + (bool \<times> State)" where
  "mergeState mapping n state target =
     (case merge_terminals mapping n (terminals state) (terminalPrec state) target of
        Inl e \<Rightarrow> Inl e
      | Inr (ok, target') \<Rightarrow>
          if \<not> ok then Inr (False, target') else Inr (True, merge_goto mapping n (goto state) target'))"

text \<open>\<open>new State(id, set)\<close>.\<close>

definition new_State :: "nat \<Rightarrow> Pos list \<Rightarrow> State" where
  "new_State i items = \<lparr>state_id = i, state_set = items, terminals = [], terminalPrec = [],
     goto = [], ambiguous = False\<rparr>"

text \<open>
  The body of the two loops of \<open>markConflicts\<close> for one pair \<open>(i, j)\<close>: both states are
  merged into a dummy state, and the pair is pushed when the second merge fails.
\<close>

definition mark_pair :: "nat list \<Rightarrow> nat \<Rightarrow> State list \<Rightarrow> nat \<Rightarrow> nat \<Rightarrow> nat list \<Rightarrow> error + nat list" where
  "mark_pair mapping n oldStates i j conflicts =
     (case mergeState mapping n (oldStates ! i) (new_State 0 []) of
        Inl e \<Rightarrow> Inl e
      | Inr (_, state) \<Rightarrow>
          (case mergeState mapping n (oldStates ! j) state of
             Inl e \<Rightarrow> Inl e
           | Inr (ok, _) \<Rightarrow> Inr (if \<not> ok then conflicts @ [i, j] else conflicts)))"

fun mark_pairs :: "nat list \<Rightarrow> nat \<Rightarrow> State list \<Rightarrow> (nat \<times> nat) list \<Rightarrow> nat list \<Rightarrow> error + nat list" where
  "mark_pairs mapping n oldStates [] conflicts = Inr conflicts"
| "mark_pairs mapping n oldStates ((i, j) # rest) conflicts =
     (case mark_pair mapping n oldStates i j conflicts of
        Inl e \<Rightarrow> Inl e
      | Inr conflicts' \<Rightarrow> mark_pairs mapping n oldStates rest conflicts')"

text \<open>The pairs \<open>(i, j)\<close> the two loops visit, in their order.\<close>

definition merged_pairs :: "nat list \<Rightarrow> nat \<Rightarrow> (nat \<times> nat) list" where
  "merged_pairs mapping newID =
     concat (map (\<lambda>i. if mapping ! i = newID
                       then map (\<lambda>j. (i, j)) (filter (\<lambda>j. j \<noteq> i \<and> mapping ! j = newID) [0..<length mapping])
                       else [])
                 [0..<length mapping])"

definition markConflicts :: "nat list \<Rightarrow> nat \<Rightarrow> State list \<Rightarrow> nat \<Rightarrow> nat list \<Rightarrow> error + nat list" where
  "markConflicts mapping newID oldStates n conflicts =
     mark_pairs mapping n oldStates (merged_pairs mapping newID) conflicts"

text \<open>
  \<open>hasConflict\<close>: the list of conflicts is flat, a pair at every even index; reading
  beyond the end of \<open>conflicts\<close> or of \<open>mapping\<close> gives \<open>undefined\<close>, which equals no id.
\<close>

definition hasConflict :: "nat \<Rightarrow> nat \<Rightarrow> nat list \<Rightarrow> nat list \<Rightarrow> bool" where
  "hasConflict i newID mapping conflicts =
     list_ex (\<lambda>k. conflicts ! k = i \<and>
                  (let other = (if k mod 2 \<noteq> 0 then k - 1 else k + 1)
                   in other < length conflicts \<and> conflicts ! other < length mapping \<and>
                      mapping ! (conflicts ! other) = newID))
             [0..<length conflicts]"

text \<open>The core of a state: its items, one per rule and dot position.\<close>

fun core_items :: "Pos list \<Rightarrow> Pos list \<Rightarrow> Pos list" where
  "core_items [] acc = acc"
| "core_items (p # ps) acc =
     core_items ps (if \<not> list_ex (\<lambda>q. cmpSimple q p = 0) acc then acc @ [p] else acc)"

text \<open>\<open>findIndex\<close>: the first index whose element passes the test, if any.\<close>

fun findIndex :: "('a \<Rightarrow> nat \<Rightarrow> bool) \<Rightarrow> 'a list \<Rightarrow> nat \<Rightarrow> nat option" where
  "findIndex P [] k = None"
| "findIndex P (x # xs) k = (if P x k then Some k else findIndex P xs (Suc k))"

text \<open>The first loop of a pass: the partitioning, from state \<open>i\<close> on.\<close>

function assign :: "State list \<Rightarrow> nat list \<Rightarrow> nat \<Rightarrow> State list \<Rightarrow> nat list \<Rightarrow> State list \<times> nat list" where
  "assign states conflicts i newStates mapping =
     (if i < length states then
        let items = core_items (state_set (states ! i)) [];
            found = findIndex (\<lambda>s index. cmpSet (state_set s) items cmpSimple = 0 \<and>
                                           \<not> hasConflict i index mapping conflicts) newStates 0
        in (case found of
              None \<Rightarrow>
                assign states conflicts (Suc i)
                  (newStates @ [new_State (length newStates) items]) (mapping @ [length newStates])
            | Some newID \<Rightarrow> assign states conflicts (Suc i) newStates (mapping @ [newID]))
      else (newStates, mapping))"
  by pat_completeness auto
termination
  by (relation "measure (\<lambda>(states, conflicts, i, newStates, mapping). length states - i)") auto

declare assign.simps [simp del]

text \<open>
  The second loop of a pass: the merges, from state \<open>i\<close> on. A state is merged into its
  new state (\<open>newStates[mapping[i]]\<close>, updated in place) unless that one is known to
  conflict.
\<close>

function merge_all ::
  "State list \<Rightarrow> nat list \<Rightarrow> nat \<Rightarrow> State list \<Rightarrow> nat list \<Rightarrow> nat list \<Rightarrow>
     error + (State list \<times> nat list \<times> nat list)" where
  "merge_all states mapping i newStates conflicting conflicts =
     (if i < length states then
        let newID = mapping ! i in
        if newID \<in> set conflicting then merge_all states mapping (Suc i) newStates conflicting conflicts
        else
          (case mergeState mapping (length newStates) (states ! i) (newStates ! newID) of
             Inl e \<Rightarrow> Inl e
           | Inr (ok, target) \<Rightarrow>
               if ok then
                 merge_all states mapping (Suc i) (newStates[newID := target]) conflicting conflicts
               else
                 (case markConflicts mapping newID states (length newStates) conflicts of
                    Inl e \<Rightarrow> Inl e
                  | Inr conflicts' \<Rightarrow>
                      merge_all states mapping (Suc i) (newStates[newID := target])
                        (conflicting @ [newID]) conflicts'))
      else Inr (newStates, conflicting, conflicts))"
  by pat_completeness auto
termination
  by (relation "measure (\<lambda>(states, mapping, i, newStates, conflicting, conflicts). length states - i)")
     auto

declare merge_all.simps [simp del]

text \<open>One pass of the loop of \<open>collapseAutomaton\<close>.\<close>

definition collapse_pass :: "State list \<Rightarrow> nat list \<Rightarrow> error + (State list \<times> nat list \<times> nat list)" where
  "collapse_pass states conflicts =
     (case assign states conflicts 0 [] [] of
        (newStates, mapping) \<Rightarrow> merge_all states mapping 0 newStates [] conflicts)"

text \<open>
  The loop itself. Nothing bounds the number of passes, so the function is partial:
  \<open>None\<close> stands for a run that does not return.
\<close>

partial_function (option) collapse_loop :: "State list \<Rightarrow> nat list \<Rightarrow> (error + State list) option" where
  "collapse_loop states conflicts =
     (case collapse_pass states conflicts of
        Inl e \<Rightarrow> Some (Inl e)
      | Inr (newStates, conflicting, conflicts') \<Rightarrow>
          if conflicting = [] then Some (Inr newStates) else collapse_loop states conflicts')"

definition collapseAutomaton :: "State list \<Rightarrow> (error + State list) option" where
  "collapseAutomaton states = collapse_loop states []"
text \<open>
  Three states with the same core, the four complete items \<open>A -> x .\<close>, \<open>B -> x .\<close>,
  \<open>C -> x .\<close>, \<open>D -> x .\<close>, and different lookaheads; each rule has its precedences, and
  every state has the reductions of its items. On the terminal \<open>t\<close> state 0 reduces by
  \<open>D\<close>, state 1 by \<open>B\<close> and \<open>C\<close> (an intentional conflict) and state 2 by \<open>A\<close>.
\<close>

definition lvl :: "string \<Rightarrow> int \<Rightarrow> Precedence" where
  "lvl g n = \<lparr>associativity = None, group = g, precedence = n\<rparr>"

definition l_prec :: "string \<Rightarrow> Precedence list" where
  "l_prec n = (if n = ''A'' then [lvl ''W'' (- 1), lvl ''X'' 5]
               else if n = ''B'' then [lvl ''V'' 2, lvl ''X'' 3]
               else if n = ''C'' then [lvl ''V'' (- 1), lvl ''X'' 5]
               else [lvl ''W'' 1, lvl ''V'' 1])"

definition l_rule :: "string \<Rightarrow> Rule" where
  "l_rule n = \<lparr>rule_name = g_term n 0, parts = [g_term ''x'' 1], rule_precedence = [l_prec n]\<rparr>"

definition l_state :: "nat \<Rightarrow> (string \<times> string) list \<Rightarrow> State" where
  "l_state i items =
     \<lparr>state_id = i,
      state_set = map (\<lambda>(n, a). \<lparr>rule = l_rule n, pos = 1, ahead = g_term a 1, prec = []\<rparr>) items,
      terminals = map (\<lambda>(n, a). Reduce (g_term a 1) (l_rule n)) items,
      terminalPrec = map (\<lambda>(n, a). l_prec n) items,
      goto = [], ambiguous = False\<rparr>"

definition loop_states :: "State list" where
  "loop_states =
     [l_state 0 [(''A'', ''p''), (''B'', ''q''), (''C'', ''r''), (''D'', ''t'')],
      (l_state 1 [(''A'', ''p''), (''B'', ''t''), (''C'', ''t''), (''D'', ''s'')])\<lparr>ambiguous := True\<rparr>,
      l_state 2 [(''A'', ''t''), (''B'', ''q''), (''C'', ''r''), (''D'', ''s'')]]"
lemma loop_pass:
  "case collapse_pass loop_states [] of Inl e \<Rightarrow> False | Inr (ns, cf, cs) \<Rightarrow> cf = [0] \<and> cs = []"
  by code_simp

text \<open>
  Claim C2 asks that \<open>collapseAutomaton\<close> returns on every list of states, each restart
  refining the partitioning. On \<open>loop_states\<close> the code does not: the merge of the three
  states fails (the reduction by \<open>A\<close> of state 2 meets the reduction by \<open>C\<close> that state 1
  left in the merged state), so the pass restarts; but \<open>markConflicts\<close>, which is there to
  record the pair that conflicts, tries the six pairs each in a fresh state, where none of
  the merges fails. The pass ends with the partition 0 marked as conflicting and with no
  pair recorded, every pass repeats the first one, and the function does not return.
\<close>

theorem collapseAutomaton_no_return:
  "collapseAutomaton loop_states = None \<and>
   (\<exists>ns. collapse_pass loop_states [] = Inr (ns, [0], []))"
proof -
  from loop_pass obtain ns where pass: "collapse_pass loop_states [] = Inr (ns, [0], [])"
    by (auto split: sum.splits)
  have "\<not> (states = loop_states \<and> conflicts = [])"
    if ret: "collapse_loop states conflicts = Some y" for states conflicts y
  proof (rule collapse_loop.raw_induct [where P = "\<lambda>s c y. \<not> (s = loop_states \<and> c = [])", OF _ ret])
    fix loop :: "State list \<Rightarrow> nat list \<Rightarrow> (error + State list) option"
      and s c z
    assume IH: "\<And>s c z. loop s c = Some z \<Longrightarrow> \<not> (s = loop_states \<and> c = [])"
      and step: "(case collapse_pass s c of Inl e \<Rightarrow> Some (Inl e)
        | Inr (newStates, conflicting, conflicts') \<Rightarrow>
            if conflicting = [] then Some (Inr newStates) else loop s conflicts') = Some z"
    show "\<not> (s = loop_states \<and> c = [])"
    proof
      assume "s = loop_states \<and> c = []"
      with step pass have "loop loop_states [] = Some z" by simp
      with IH show False by blast
    qed
  qed
  then have "collapse_loop loop_states [] \<noteq> Some y" for y by blast
  then have "collapse_loop loop_states [] = None"
    by (cases "collapse_loop loop_states []") auto
  then have "collapseAutomaton loop_states = None" by (simp add: collapseAutomaton_def)
  with pass show ?thesis by blast
qed

subsection \<open>Termination of the collapse where no state has two actions on a terminal\<close>

text \<open>
  The actions of a state with their precedence lists; a state is \<open>synced\<close> when the two
  arrays have the same length, as \<open>addAction\<close> keeps them.
\<close>

definition entries :: "State \<Rightarrow> (Action \<times> Precedence list) list" where
  "entries st = zip (terminals st) (terminalPrec st)"

definition synced :: "State \<Rightarrow> bool" where
  "synced st \<longleftrightarrow> length (terminalPrec st) = length (terminals st)"

definition on_term :: "Term \<Rightarrow> Action \<times> Precedence list \<Rightarrow> bool" where
  "on_term t e \<longleftrightarrow> action_term (fst e) = t"

lemma zip_splice1:
  "length xs = length ys \<Longrightarrow> zip (splice1 i xs) (splice1 i ys) = splice1 i (zip xs ys)"
  by (simp add: splice1_def zip_append take_zip drop_zip)

lemma set_splice1: "set (splice1 i xs) \<subseteq> set xs"
  by (auto simp: splice1_def dest: in_set_takeD in_set_dropD)

lemma filter_splice1:
  "i < length xs \<Longrightarrow> \<not> P (xs ! i) \<Longrightarrow> filter P (splice1 i xs) = filter P xs"
proof -
  assume i: "i < length xs" and n: "\<not> P (xs ! i)"
  have "xs = take i xs @ xs ! i # drop (Suc i) xs"
    using i by (simp add: id_take_nth_drop)
  then have "filter P xs = filter P (take i xs) @ filter P (drop (Suc i) xs)"
    using n by (metis filter.simps(2) filter_append)
  then show ?thesis by (simp add: splice1_def)
qed

lemma addAction_loop_props:
  "synced st \<Longrightarrow>
   \<exists>ok st'. addAction_loop i st v p None = Inr (ok, st') \<and> synced st' \<and>
     set (entries st') \<subseteq> insert (v, p) (set (entries st)) \<and>
     (\<not> ok \<longrightarrow> (\<exists>e\<in>set (entries st). on_term (action_term v) e \<and> \<not> action_eq (fst e) v \<and>
                     check_prec (fst e) (snd e) p = Undecided)) \<and>
     (\<forall>t. action_term v \<noteq> t \<longrightarrow> filter (on_term t) (entries st') = filter (on_term t) (entries st))"
proof (induction i st v p "None :: Pos option" rule: addAction_loop.induct)
  case (1 i st v p)
  note sy = "1.prems"
  show ?case
  proof (cases "i < length (terminals st)")
    case False
    then have "addAction_loop i st v p None =
        Inr (True, st\<lparr>terminals := terminals st @ [v], terminalPrec := terminalPrec st @ [p]\<rparr>)"
      by (simp add: addAction_loop_end)
    with sy show ?thesis
      by (auto simp: synced_def entries_def on_term_def)
  next
    case i: True
    let ?a = "terminals st ! i"
    show ?thesis
    proof (cases "action_term ?a = action_term v")
      case False
      with i have eq: "addAction_loop i st v p None = addAction_loop (Suc i) st v p None"
        by (subst addAction_loop.simps) (simp add: Let_def)
      from "1.hyps"(3) [OF i refl False sy] show ?thesis unfolding eq .
    next
      case same: True
      show ?thesis
      proof (cases "action_eq ?a v")
        case True
        with i same have "addAction_loop i st v p None = Inr (True, st)"
          by (subst addAction_loop.simps) (simp add: Let_def)
        with sy show ?thesis by auto
      next
        case ne: False
        let ?st1 = "st\<lparr>ambiguous := True\<rparr>"
        have sy1: "synced ?st1" using sy by (simp add: synced_def)
        have e1: "entries ?st1 = entries st" by (simp add: entries_def)
        have il: "i < length (terminalPrec st)" using i sy by (simp add: synced_def)
        have mem: "(?a, terminalPrec st ! i) \<in> set (entries st)"
          using i il by (auto simp: entries_def set_zip)
        have at: "addAction_loop i st v p None =
          (case check_prec ?a (terminalPrec st ! i) p of
             Skip \<Rightarrow> addAction_loop (Suc i) ?st1 v p None
           | Override \<Rightarrow>
               addAction_loop i (st\<lparr>ambiguous := True, terminals := splice1 i (terminals st),
                                      terminalPrec := splice1 i (terminalPrec st)\<rparr>) v p None
           | Keep \<Rightarrow> Inr (True, ?st1)
           | Undecided \<Rightarrow> Inr (False, ?st1))"
          using addAction_loop_at [of i st v p None] i sy same ne
          by (simp add: synced_def split: verdict.splits)
        show ?thesis
        proof (cases "check_prec ?a (terminalPrec st ! i) p")
          case Skip
          have "check_prec ?a (if i < length (terminalPrec ?st1) then terminalPrec ?st1 ! i else []) p = Skip"
            using Skip il by simp
          from "1.hyps"(1) [OF i refl same ne refl _ this sy1] il
          have "\<exists>ok st'. addAction_loop (Suc i) ?st1 v p None = Inr (ok, st') \<and> synced st' \<and>
             set (entries st') \<subseteq> insert (v, p) (set (entries ?st1)) \<and>
             (\<not> ok \<longrightarrow> (\<exists>e\<in>set (entries ?st1). on_term (action_term v) e \<and> \<not> action_eq (fst e) v \<and>
                     check_prec (fst e) (snd e) p = Undecided)) \<and>
             (\<forall>t. action_term v \<noteq> t \<longrightarrow> filter (on_term t) (entries st') = filter (on_term t) (entries ?st1))"
            by simp
          then show ?thesis unfolding at Skip e1 by simp
        next
          case Override
          let ?st2 = "st\<lparr>ambiguous := True, terminals := splice1 i (terminals st),
                                      terminalPrec := splice1 i (terminalPrec st)\<rparr>"
          have sy2: "synced ?st2" using sy by (simp add: synced_def splice1_def)
          have e2: "entries ?st2 = splice1 i (entries st)"
            using sy by (simp add: entries_def synced_def zip_splice1)
          have "check_prec ?a (if i < length (terminalPrec ?st1) then terminalPrec ?st1 ! i else []) p = Override"
            using Override il by simp
          from "1.hyps"(2) [OF i refl same ne refl _ this] il sy2
          have IH: "\<exists>ok st'. addAction_loop i ?st2 v p None = Inr (ok, st') \<and> synced st' \<and>
             set (entries st') \<subseteq> insert (v, p) (set (entries ?st2)) \<and>
             (\<not> ok \<longrightarrow> (\<exists>e\<in>set (entries ?st2). on_term (action_term v) e \<and> \<not> action_eq (fst e) v \<and>
                     check_prec (fst e) (snd e) p = Undecided)) \<and>
             (\<forall>t. action_term v \<noteq> t \<longrightarrow> filter (on_term t) (entries st') = filter (on_term t) (entries ?st2))"
            by simp
          have sub: "set (entries ?st2) \<subseteq> set (entries st)"
            unfolding e2 by (rule set_splice1)
          have fil: "filter (on_term t) (entries ?st2) = filter (on_term t) (entries st)"
            if "action_term v \<noteq> t" for t
            unfolding e2
          proof (rule filter_splice1)
            show "i < length (entries st)" using i il by (simp add: entries_def)
            show "\<not> on_term t (entries st ! i)"
              using that same i il by (simp add: entries_def on_term_def)
          qed
          from IH obtain ok st' where r: "addAction_loop i ?st2 v p None = Inr (ok, st')"
            and a: "synced st'" and b: "set (entries st') \<subseteq> insert (v, p) (set (entries ?st2))"
            and c: "\<not> ok \<longrightarrow> (\<exists>e\<in>set (entries ?st2). on_term (action_term v) e \<and>
                     \<not> action_eq (fst e) v \<and> check_prec (fst e) (snd e) p = Undecided)"
            and d: "\<forall>t. action_term v \<noteq> t \<longrightarrow>
                     filter (on_term t) (entries st') = filter (on_term t) (entries ?st2)"
            by blast
          from b sub have b': "set (entries st') \<subseteq> insert (v, p) (set (entries st))" by auto
          from c sub have c': "\<not> ok \<longrightarrow> (\<exists>e\<in>set (entries st). on_term (action_term v) e \<and>
                     \<not> action_eq (fst e) v \<and> check_prec (fst e) (snd e) p = Undecided)" by blast
          from d fil have d': "\<forall>t. action_term v \<noteq> t \<longrightarrow>
                     filter (on_term t) (entries st') = filter (on_term t) (entries st)" by simp
          have "addAction_loop i st v p None = Inr (ok, st')"
            unfolding at Override using r by simp
          with a b' c' d' show ?thesis by blast
        next
          case Keep
          with sy1 e1 show ?thesis unfolding at by auto
        next
          case Undecided
          then have r: "addAction_loop i st v p None = Inr (False, ?st1)"
            unfolding at by simp
          have w: "\<exists>e\<in>set (entries st). on_term (action_term v) e \<and> \<not> action_eq (fst e) v \<and>
                     check_prec (fst e) (snd e) p = Undecided"
            using mem same ne Undecided by (intro bexI [of _ "(?a, terminalPrec st ! i)"])
              (simp_all add: on_term_def)
          have "set (entries ?st1) \<subseteq> insert (v, p) (set (entries st))" unfolding e1 by auto
          with r sy1 w e1 show ?thesis by (intro exI [of _ False] exI [of _ ?st1]) simp
        qed
      qed
    qed
  qed
qed
lemma addAction_props:
  "synced st \<Longrightarrow> \<exists>ok st'. addAction st v p None = Inr (ok, st') \<and> synced st' \<and>
     set (entries st') \<subseteq> insert (v, p) (set (entries st)) \<and>
     (\<not> ok \<longrightarrow> (\<exists>e\<in>set (entries st). on_term (action_term v) e \<and> \<not> action_eq (fst e) v \<and>
                     check_prec (fst e) (snd e) p = Undecided)) \<and>
     (\<forall>t. action_term v \<noteq> t \<longrightarrow> filter (on_term t) (entries st') = filter (on_term t) (entries st))"
  using addAction_loop_props [of st 0 v p] unfolding addAction_def by blast

lemma filter_single_index:
  "filter P zs = [z] \<Longrightarrow> \<exists>i<length zs. zs ! i = z \<and> (\<forall>j<length zs. j \<noteq> i \<longrightarrow> \<not> P (zs ! j))"
proof (induction zs)
  case Nil
  then show ?case by simp
next
  case (Cons y ys)
  show ?case
  proof (cases "P y")
    case True
    with Cons.prems have y: "y = z" and e: "filter P ys = []" by simp_all
    from e have "\<forall>j<length ys. \<not> P (ys ! j)" by (simp add: filter_empty_conv)
    with y show ?thesis
      by (intro exI [of _ 0]) (auto simp: nth_Cons split: nat.splits)
  next
    case False
    with Cons obtain i where i: "i < length ys" "ys ! i = z" "\<forall>j<length ys. j \<noteq> i \<longrightarrow> \<not> P (ys ! j)"
      by auto
    with False show ?thesis
      by (intro exI [of _ "Suc i"]) (auto simp: nth_Cons split: nat.splits)
  qed
qed

lemma addAction_unique_conflict:
  assumes sy: "synced st"
    and one: "filter (on_term (action_term v)) (entries st) = [(f, pf)]"
    and ne: "\<not> action_eq f v" and und: "check_prec f pf p = Undecided"
  shows "\<exists>st'. addAction st v p None = Inr (False, st')"
proof -
  from filter_single_index [OF one] obtain i where i: "i < length (entries st)"
    and ei: "entries st ! i = (f, pf)"
    and others: "\<forall>j<length (entries st). j \<noteq> i \<longrightarrow> \<not> on_term (action_term v) (entries st ! j)"
    by blast
  have len: "length (entries st) = length (terminals st)"
    using sy by (simp add: entries_def synced_def)
  from i ei sy have f: "terminals st ! i = f" and pf: "terminalPrec st ! i = pf"
    by (simp_all add: entries_def synced_def)
  have "(f, pf) \<in> set (filter (on_term (action_term v)) (entries st))" unfolding one by simp
  then have same: "action_term f = action_term v" by (simp add: on_term_def)
  have oth: "action_term (terminals st ! j) \<noteq> action_term v" if "j < length (terminals st)" "j \<noteq> i" for j
    using others that len sy by (simp add: entries_def synced_def on_term_def)
  have "addAction st v p None = addAction_loop i st v p None"
    unfolding addAction_def using i len oth by (intro addAction_loop_skip) auto
  also have "\<dots> = Inr (False, st\<lparr>ambiguous := True\<rparr>)"
    using addAction_loop_at [of i st v p None] i len sy f pf same ne und
    by (simp add: synced_def)
  finally show ?thesis by blast
qed

lemma action_term_map [simp]: "action_term (map_action m n a) = action_term a"
  by (cases a) simp_all

lemma merge_terminals_props:
  "synced target \<Longrightarrow> length ps = length as \<Longrightarrow>
   \<exists>ok t'. merge_terminals m n as ps target = Inr (ok, t') \<and> synced t' \<and>
     set (entries t') \<subseteq> set (entries target) \<union> set (zip (map (map_action m n) as) ps) \<and>
     (\<not> ok \<longrightarrow> (\<exists>j<length as.
        \<exists>e\<in>set (entries target) \<union> set (zip (map (map_action m n) (take j as)) (take j ps)).
          on_term (action_term (as ! j)) e \<and> \<not> action_eq (fst e) (map_action m n (as ! j)) \<and>
          check_prec (fst e) (snd e) (ps ! j) = Undecided))"
proof (induction as arbitrary: ps target)
  case Nil
  then show ?case by auto
next
  case (Cons a as)
  from Cons.prems(2) obtain p ps' where ps: "ps = p # ps'" "length ps' = length as"
    by (cases ps) auto
  let ?v = "map_action m n a"
  from addAction_props [OF Cons.prems(1), of ?v p]
  obtain ok t1 where r: "addAction target ?v p None = Inr (ok, t1)"
    and s1: "synced t1" and sub1: "set (entries t1) \<subseteq> insert (?v, p) (set (entries target))"
    and f1: "\<not> ok \<Longrightarrow> \<exists>e\<in>set (entries target). on_term (action_term ?v) e \<and> \<not> action_eq (fst e) ?v \<and>
                     check_prec (fst e) (snd e) p = Undecided"
    by blast
  show ?case
  proof (cases ok)
    case False
    with r ps have res: "merge_terminals m n (a # as) ps target = Inr (False, t1)" by simp
    from f1 [OF False] have "\<exists>j<length (a # as).
        \<exists>e\<in>set (entries target) \<union> set (zip (map (map_action m n) (take j (a # as))) (take j ps)).
          on_term (action_term ((a # as) ! j)) e \<and> \<not> action_eq (fst e) (map_action m n ((a # as) ! j)) \<and>
          check_prec (fst e) (snd e) (ps ! j) = Undecided"
      using ps by (intro exI [of _ 0]) auto
    with res s1 sub1 ps show ?thesis by auto
  next
    case True
    with r ps have res: "merge_terminals m n (a # as) ps target = merge_terminals m n as ps' t1"
      by simp
    from Cons.IH [OF s1 ps(2)] obtain ok2 t2 where r2: "merge_terminals m n as ps' t1 = Inr (ok2, t2)"
      and s2: "synced t2"
      and sub2: "set (entries t2) \<subseteq> set (entries t1) \<union> set (zip (map (map_action m n) as) ps')"
      and f2: "\<not> ok2 \<longrightarrow> (\<exists>j<length as.
        \<exists>e\<in>set (entries t1) \<union> set (zip (map (map_action m n) (take j as)) (take j ps')).
          on_term (action_term (as ! j)) e \<and> \<not> action_eq (fst e) (map_action m n (as ! j)) \<and>
          check_prec (fst e) (snd e) (ps' ! j) = Undecided)"
      by blast
    have sub: "set (entries t2) \<subseteq> set (entries target) \<union> set (zip (map (map_action m n) (a # as)) ps)"
      using sub1 sub2 ps by auto
    have fl: "\<exists>j<length (a # as).
        \<exists>e\<in>set (entries target) \<union> set (zip (map (map_action m n) (take j (a # as))) (take j ps)).
          on_term (action_term ((a # as) ! j)) e \<and> \<not> action_eq (fst e) (map_action m n ((a # as) ! j)) \<and>
          check_prec (fst e) (snd e) (ps ! j) = Undecided" if "\<not> ok2"
    proof -
      from f2 that obtain j e where j: "j < length as"
        and e: "e \<in> set (entries t1) \<union> set (zip (map (map_action m n) (take j as)) (take j ps'))"
        and w: "on_term (action_term (as ! j)) e" "\<not> action_eq (fst e) (map_action m n (as ! j))"
          "check_prec (fst e) (snd e) (ps' ! j) = Undecided"
        by blast
      from e sub1 have "e \<in> set (entries target) \<union>
          set (zip (map (map_action m n) (take (Suc j) (a # as))) (take (Suc j) ps))"
        using ps by auto
      with j w ps show ?thesis
        by (intro exI [of _ "Suc j"]) auto
    qed
    from res r2 s2 sub fl show ?thesis by auto
  qed
qed
text \<open>The entries a state contributes to a merge: its actions, redirected by the mapping.\<close>

definition mapped :: "nat list \<Rightarrow> nat \<Rightarrow> State \<Rightarrow> (Action \<times> Precedence list) list" where
  "mapped m n s = zip (map (map_action m n) (terminals s)) (terminalPrec s)"

text \<open>
  Two states clash when an action of the second meets, among the entries of the first, a
  different action on the same terminal that the precedences do not decide.
\<close>

definition clash :: "nat list \<Rightarrow> nat \<Rightarrow> State \<Rightarrow> State \<Rightarrow> bool" where
  "clash m n x c \<longleftrightarrow>
     (\<exists>j<length (terminals c). \<exists>e\<in>set (mapped m n x).
        on_term (action_term (terminals c ! j)) e \<and>
        \<not> action_eq (fst e) (map_action m n (terminals c ! j)) \<and>
        check_prec (fst e) (snd e) (terminalPrec c ! j) = Undecided)"

text \<open>The list of conflicts is flat: the two states of a pair follow each other.\<close>

definition flat :: "(nat \<times> nat) list \<Rightarrow> nat list" where
  "flat ps = concat (map (\<lambda>(a, b). [a, b]) ps)"

lemma merge_terminals_conflict:
  "synced target \<Longrightarrow> length ps = length as \<Longrightarrow> distinct (map action_term as) \<Longrightarrow> j < length as \<Longrightarrow>
   filter (on_term (action_term (as ! j))) (entries target) = [(f, pf)] \<Longrightarrow>
   \<not> action_eq f (map_action m n (as ! j)) \<Longrightarrow> check_prec f pf (ps ! j) = Undecided \<Longrightarrow>
   \<exists>t'. merge_terminals m n as ps target = Inr (False, t')"
proof (induction as arbitrary: ps target j)
  case Nil
  then show ?case by simp
next
  case (Cons a as)
  from Cons.prems(2) obtain p ps' where ps: "ps = p # ps'" "length ps' = length as"
    by (cases ps) auto
  let ?v = "map_action m n a"
  show ?case
  proof (cases j)
    case 0
    with Cons.prems ps have "\<exists>st'. addAction target ?v p None = Inr (False, st')"
      by (intro addAction_unique_conflict [where f = f and pf = pf]) simp_all
    with ps show ?thesis by auto
  next
    case (Suc k)
    from addAction_props [OF Cons.prems(1), of ?v p]
    obtain ok t1 where r: "addAction target ?v p None = Inr (ok, t1)"
      and s1: "synced t1"
      and keep: "\<forall>t. action_term ?v \<noteq> t \<longrightarrow> filter (on_term t) (entries t1) = filter (on_term t) (entries target)"
      by blast
    show ?thesis
    proof (cases ok)
      case False
      with r ps show ?thesis by simp
    next
      case True
      from Cons.prems(3,4) Suc have ne: "action_term ?v \<noteq> action_term (as ! k)" by auto
      with keep Cons.prems(5) Suc
      have fl: "filter (on_term (action_term (as ! k))) (entries t1) = [(f, pf)]" by simp
      have "\<exists>t'. merge_terminals m n as ps' t1 = Inr (False, t')"
        using Cons.prems Suc ps by (intro Cons.IH [OF s1 ps(2) _ _ fl]) simp_all
      with r True ps show ?thesis by simp
    qed
  qed
qed

lemma merge_terminals_fresh:
  "synced target \<Longrightarrow> length ps = length as \<Longrightarrow> distinct (map action_term as) \<Longrightarrow>
   \<forall>a\<in>set (terminals target). action_term a \<notin> action_term ` set as \<Longrightarrow>
   merge_terminals m n as ps target =
     Inr (True, target\<lparr>terminals := terminals target @ map (map_action m n) as,
                       terminalPrec := terminalPrec target @ ps\<rparr>)"
proof (induction as arbitrary: ps target)
  case Nil
  then show ?case by simp
next
  case (Cons a as)
  from Cons.prems(2) obtain p ps' where ps: "ps = p # ps'" "length ps' = length as"
    by (cases ps) auto
  let ?v = "map_action m n a"
  let ?t1 = "target\<lparr>terminals := terminals target @ [?v], terminalPrec := terminalPrec target @ [p]\<rparr>"
  have "addAction target ?v p None = Inr (True, ?t1)"
    unfolding addAction_def using Cons.prems(4) by (intro addAction_loop_absent) auto
  moreover have "merge_terminals m n as ps' ?t1 =
     Inr (True, ?t1\<lparr>terminals := terminals ?t1 @ map (map_action m n) as,
                    terminalPrec := terminalPrec ?t1 @ ps'\<rparr>)"
    using Cons.prems ps by (intro Cons.IH) (auto simp: synced_def)
  ultimately show ?case using ps by simp
qed

lemma merge_goto_terminals [simp]:
  "terminals (merge_goto m n gs t) = terminals t"
  "terminalPrec (merge_goto m n gs t) = terminalPrec t"
  by (induction gs arbitrary: t) simp_all

lemma merge_goto_entries [simp]: "entries (merge_goto m n gs t) = entries t"
  by (simp add: entries_def)

lemma merge_goto_synced [simp]: "synced (merge_goto m n gs t) = synced t"
  by (simp add: synced_def)

lemma mergeState_props:
  assumes "synced target" "synced state"
  shows "\<exists>ok t'. mergeState m n state target = Inr (ok, t') \<and> synced t' \<and>
     set (entries t') \<subseteq> set (entries target) \<union> set (mapped m n state) \<and>
     (\<not> ok \<longrightarrow> (\<exists>j<length (terminals state).
        \<exists>e\<in>set (entries target) \<union>
             set (zip (map (map_action m n) (take j (terminals state))) (take j (terminalPrec state))).
          on_term (action_term (terminals state ! j)) e \<and>
          \<not> action_eq (fst e) (map_action m n (terminals state ! j)) \<and>
          check_prec (fst e) (snd e) (terminalPrec state ! j) = Undecided))"
proof -
  from assms(2) have len: "length (terminalPrec state) = length (terminals state)"
    by (simp add: synced_def)
  from merge_terminals_props [OF assms(1) len, of m n]
  obtain ok t' where r: "merge_terminals m n (terminals state) (terminalPrec state) target = Inr (ok, t')"
    and s: "synced t'"
    and sub: "set (entries t') \<subseteq> set (entries target) \<union> set (mapped m n state)"
    and f: "\<not> ok \<longrightarrow> (\<exists>j<length (terminals state).
        \<exists>e\<in>set (entries target) \<union>
             set (zip (map (map_action m n) (take j (terminals state))) (take j (terminalPrec state))).
          on_term (action_term (terminals state ! j)) e \<and>
          \<not> action_eq (fst e) (map_action m n (terminals state ! j)) \<and>
          check_prec (fst e) (snd e) (terminalPrec state ! j) = Undecided)"
    unfolding mapped_def by blast
  show ?thesis
  proof (cases ok)
    case True
    with r s sub show ?thesis by (auto simp: mergeState_def)
  next
    case False
    with r s sub f show ?thesis by (auto simp: mergeState_def)
  qed
qed

text \<open>Where the merged state has one action per terminal, the entry that made the merge
  fail was in the target before.\<close>

lemma mergeState_fail_target:
  assumes "synced target" "synced state" "distinct (map action_term (terminals state))"
    and "mergeState m n state target = Inr (False, t')"
  shows "\<exists>j<length (terminals state). \<exists>e\<in>set (entries target).
          on_term (action_term (terminals state ! j)) e \<and>
          \<not> action_eq (fst e) (map_action m n (terminals state ! j)) \<and>
          check_prec (fst e) (snd e) (terminalPrec state ! j) = Undecided"
proof -
  from mergeState_props [OF assms(1,2), of m n] assms(4)
  obtain j e where j: "j < length (terminals state)"
    and e: "e \<in> set (entries target) \<union>
             set (zip (map (map_action m n) (take j (terminals state))) (take j (terminalPrec state)))"
    and w: "on_term (action_term (terminals state ! j)) e"
       "\<not> action_eq (fst e) (map_action m n (terminals state ! j))"
       "check_prec (fst e) (snd e) (terminalPrec state ! j) = Undecided"
    by auto
  have "e \<notin> set (zip (map (map_action m n) (take j (terminals state))) (take j (terminalPrec state)))"
  proof
    assume "e \<in> set (zip (map (map_action m n) (take j (terminals state))) (take j (terminalPrec state)))"
    then have "(fst e, snd e) \<in> set (zip (map (map_action m n) (take j (terminals state))) (take j (terminalPrec state)))"
      by simp
    then have "fst e \<in> set (map (map_action m n) (take j (terminals state)))"
      by (rule set_zip_leftD)
    then obtain k where k: "k < j" and fe: "fst e = map_action m n (terminals state ! k)"
      using j by (auto simp: in_set_conv_nth)
    with w(1) have "action_term (terminals state ! k) = action_term (terminals state ! j)"
      by (simp add: on_term_def)
    with assms(3) k j show False
      by (auto simp: distinct_conv_nth)
  qed
  with e j w show ?thesis by blast
qed

lemma filter_distinct_single:
  "distinct (map h zs) \<Longrightarrow> e \<in> set zs \<Longrightarrow> filter (\<lambda>z. h z = h e) zs = [e]"
proof (induction zs)
  case Nil
  then show ?case by simp
next
  case (Cons z zs)
  show ?case
  proof (cases "z = e")
    case True
    with Cons.prems have "h e \<notin> h ` set zs" by simp
    then have "\<forall>y\<in>set zs. h y \<noteq> h e" by (metis imageI)
    then have "filter (\<lambda>z. h z = h e) zs = []" by (simp add: filter_empty_conv)
    with True show ?thesis by simp
  next
    case False
    with Cons.prems have "e \<in> set zs" "h z \<noteq> h e" by auto
    with Cons show ?thesis by simp
  qed
qed

lemma mergeState_fresh:
  assumes "synced x" "distinct (map action_term (terminals x))"
  shows "\<exists>d. mergeState m n x (new_State 0 []) = Inr (True, d) \<and> synced d \<and> entries d = mapped m n x"
proof -
  have "merge_terminals m n (terminals x) (terminalPrec x) (new_State 0 []) =
     Inr (True, (new_State 0 [])\<lparr>terminals := terminals (new_State 0 []) @ map (map_action m n) (terminals x),
                       terminalPrec := terminalPrec (new_State 0 []) @ terminalPrec x\<rparr>)"
    using assms by (intro merge_terminals_fresh) (simp_all add: synced_def new_State_def)
  with assms(1) show ?thesis
    by (simp add: mergeState_def new_State_def synced_def entries_def mapped_def)
qed

lemma mark_pair_total:
  assumes "synced (states ! i)" "synced (states ! j)"
  shows "\<exists>cs'. mark_pair m n states i j cs = Inr cs' \<and> (cs' = cs \<or> cs' = cs @ [i, j])"
proof -
  have s0: "synced (new_State 0 [])" by (simp add: synced_def new_State_def)
  from mergeState_props [OF s0 assms(1), of m n]
  obtain ok d where r1: "mergeState m n (states ! i) (new_State 0 []) = Inr (ok, d)" and sd: "synced d"
    by blast
  from mergeState_props [OF sd assms(2), of m n]
  obtain ok2 d2 where r2: "mergeState m n (states ! j) d = Inr (ok2, d2)" by blast
  from r1 r2 show ?thesis by (simp add: mark_pair_def)
qed

lemma mark_pair_clash:
  assumes x: "synced (states ! i)" "distinct (map action_term (terminals (states ! i)))"
    and c: "synced (states ! j)" "distinct (map action_term (terminals (states ! j)))"
    and cl: "clash m n (states ! i) (states ! j)"
  shows "mark_pair m n states i j cs = Inr (cs @ [i, j])"
proof -
  let ?x = "states ! i" and ?c = "states ! j"
  from mergeState_fresh [OF x, of m n]
  obtain d where r1: "mergeState m n ?x (new_State 0 []) = Inr (True, d)"
    and sd: "synced d" and ed: "entries d = mapped m n ?x"
    by blast
  from cl obtain k e where k: "k < length (terminals ?c)" and e: "e \<in> set (mapped m n ?x)"
    and w: "on_term (action_term (terminals ?c ! k)) e"
      "\<not> action_eq (fst e) (map_action m n (terminals ?c ! k))"
      "check_prec (fst e) (snd e) (terminalPrec ?c ! k) = Undecided"
    unfolding clash_def by blast
  have "map fst (mapped m n ?x) = map (map_action m n) (terminals ?x)"
    using x(1) by (simp add: mapped_def synced_def)
  then have "map (action_term \<circ> fst) (mapped m n ?x) = map action_term (terminals ?x)"
    by (metis (no_types, lifting) action_term_map comp_apply map_map map_eq_conv)
  with x(2) have "distinct (map (action_term \<circ> fst) (mapped m n ?x))" by simp
  from filter_distinct_single [OF this e]
  have "filter (\<lambda>z. action_term (fst z) = action_term (fst e)) (mapped m n ?x) = [e]" by simp
  moreover from w(1) have "action_term (fst e) = action_term (terminals ?c ! k)"
    by (simp add: on_term_def)
  ultimately have fl: "filter (on_term (action_term (terminals ?c ! k))) (entries d) = [(fst e, snd e)]"
    by (simp add: ed on_term_def [abs_def])
  from c(1) have len: "length (terminalPrec ?c) = length (terminals ?c)" by (simp add: synced_def)
  from merge_terminals_conflict [OF sd len c(2) k fl w(2) w(3)]
  obtain t' where "merge_terminals m n (terminals ?c) (terminalPrec ?c) d = Inr (False, t')" by blast
  then have "mergeState m n ?c d = Inr (False, t')" by (simp add: mergeState_def)
  with r1 show ?thesis by (simp add: mark_pair_def)
qed

lemma flat_append [simp]: "flat (ps @ qs) = flat ps @ flat qs"
  by (simp add: flat_def)

lemma flat_single [simp]: "flat [(i, j)] = [i, j]" "flat [] = []"
  by (simp_all add: flat_def)

lemma mark_pairs_props:
  assumes good: "\<forall>s\<in>set states. synced s \<and> distinct (map action_term (terminals s))"
  shows "\<forall>(i, j)\<in>set qs. i < length states \<and> j < length states \<Longrightarrow>
     \<exists>ps'. mark_pairs m n states qs (flat ps) = Inr (flat (ps @ ps')) \<and>
       (\<forall>(i, j)\<in>set qs. clash m n (states ! i) (states ! j) \<longrightarrow> (i, j) \<in> set ps')"
proof (induction qs arbitrary: ps)
  case Nil
  have "mark_pairs m n states [] (flat ps) = Inr (flat (ps @ []))" by simp
  then show ?case by blast
next
  case (Cons q qs)
  obtain i j where q: "q = (i, j)" by (cases q)
  with Cons.prems have i: "i < length states" and j: "j < length states" by auto
  with good have gi: "synced (states ! i)" "distinct (map action_term (terminals (states ! i)))"
    and gj: "synced (states ! j)" "distinct (map action_term (terminals (states ! j)))"
    by auto
  from mark_pair_total [OF gi(1) gj(1), of m n "flat ps"]
  obtain cs' where r: "mark_pair m n states i j (flat ps) = Inr cs'"
    and alt: "cs' = flat ps \<or> cs' = flat ps @ [i, j]" by blast
  define p1 where "p1 = (if cs' = flat ps then [] else [(i, j)])"
  from alt have cs': "cs' = flat (ps @ p1)" by (auto simp: p1_def)
  have rec: "clash m n (states ! i) (states ! j) \<Longrightarrow> (i, j) \<in> set p1"
    using mark_pair_clash [OF gi gj, of m n "flat ps"] r by (auto simp: p1_def)
  from Cons.prems have "\<forall>(i, j)\<in>set qs. i < length states \<and> j < length states" by simp
  from Cons.IH [OF this, of "ps @ p1"]
  obtain ps2 where r2: "mark_pairs m n states qs (flat (ps @ p1)) = Inr (flat ((ps @ p1) @ ps2))"
    and w2: "\<forall>(i, j)\<in>set qs. clash m n (states ! i) (states ! j) \<longrightarrow> (i, j) \<in> set ps2"
    by blast
  have "mark_pairs m n states (q # qs) (flat ps) = Inr (flat (ps @ (p1 @ ps2)))"
    using q r cs' r2 by simp
  moreover have "\<forall>(i, j)\<in>set (q # qs). clash m n (states ! i) (states ! j) \<longrightarrow> (i, j) \<in> set (p1 @ ps2)"
    using q rec w2 by auto
  ultimately show ?case by blast
qed
lemma flat_Cons: "flat (p # ps) = fst p # snd p # flat ps"
  by (cases p) (simp add: flat_def)

lemma length_flat [simp]: "length (flat ps) = 2 * length ps"
  by (induction ps) (simp_all add: flat_Cons)

lemma flat_nth:
  "k < length ps \<Longrightarrow> flat ps ! (2 * k) = fst (ps ! k) \<and> flat ps ! Suc (2 * k) = snd (ps ! k)"
proof (induction ps arbitrary: k)
  case Nil
  then show ?case by simp
next
  case (Cons p ps)
  show ?case
  proof (cases k)
    case 0
    then show ?thesis by (simp add: flat_Cons)
  next
    case (Suc k')
    with Cons.prems have "k' < length ps" by simp
    from Cons.IH [OF this] Suc show ?thesis by (simp add: flat_Cons)
  qed
qed

lemma hasConflict_intro:
  assumes "(a, b) \<in> set ps"
    and "(a = i \<and> b < length mapping \<and> mapping ! b = g) \<or> (b = i \<and> a < length mapping \<and> mapping ! a = g)"
  shows "hasConflict i g mapping (flat ps)"
proof -
  from assms(1) obtain k where k: "k < length ps" and pk: "ps ! k = (a, b)"
    by (auto simp: in_set_conv_nth)
  from flat_nth [OF k] pk have fa: "flat ps ! (2 * k) = a" and fb: "flat ps ! Suc (2 * k) = b"
    by simp_all
  from assms(2) show ?thesis
  proof
    assume h: "a = i \<and> b < length mapping \<and> mapping ! b = g"
    have "2 * k \<in> set [0..<length (flat ps)]" using k by simp
    moreover have "flat ps ! (2 * k) = i \<and>
       (let other = (if (2 * k) mod 2 \<noteq> 0 then 2 * k - 1 else 2 * k + 1)
        in other < length (flat ps) \<and> flat ps ! other < length mapping \<and>
           mapping ! (flat ps ! other) = g)"
      using h fa fb k by simp
    ultimately show ?thesis unfolding hasConflict_def list_ex_iff by blast
  next
    assume h: "b = i \<and> a < length mapping \<and> mapping ! a = g"
    have "Suc (2 * k) \<in> set [0..<length (flat ps)]" using k by simp
    moreover have "flat ps ! Suc (2 * k) = i \<and>
       (let other = (if Suc (2 * k) mod 2 \<noteq> 0 then Suc (2 * k) - 1 else Suc (2 * k) + 1)
        in other < length (flat ps) \<and> flat ps ! other < length mapping \<and>
           mapping ! (flat ps ! other) = g)"
      using h fa fb k by simp
    ultimately show ?thesis unfolding hasConflict_def list_ex_iff by blast
  qed
qed

lemma findIndex_Some:
  "findIndex P xs k0 = Some r \<Longrightarrow> k0 \<le> r \<and> r < k0 + length xs \<and> P (xs ! (r - k0)) r"
proof (induction xs arbitrary: k0)
  case Nil
  then show ?case by simp
next
  case (Cons x xs)
  show ?case
  proof (cases "P x k0")
    case True
    with Cons.prems show ?thesis by simp
  next
    case False
    with Cons.prems have "findIndex P xs (Suc k0) = Some r" by simp
    from Cons.IH [OF this] have "Suc k0 \<le> r" "r < Suc k0 + length xs" "P (xs ! (r - Suc k0)) r"
      by simp_all
    moreover from \<open>Suc k0 \<le> r\<close> have "(x # xs) ! (r - k0) = xs ! (r - Suc k0)"
      by (simp add: nth_Cons split: nat.splits) (metis Suc_diff_Suc Suc_le_lessD nat.inject)
    ultimately show ?thesis by simp
  qed
qed

text \<open>
  What the first loop of a pass keeps: every state so far has a new state, the new states
  have no actions yet, and no recorded pair is within one partition.
\<close>

definition assign_inv :: "(nat \<times> nat) list \<Rightarrow> nat \<Rightarrow> State list \<Rightarrow> nat list \<Rightarrow> bool" where
  "assign_inv ps i newStates mapping \<longleftrightarrow>
     length mapping = i \<and> length newStates \<le> i \<and>
     (\<forall>k<i. mapping ! k < length newStates) \<and>
     (\<forall>s\<in>set newStates. terminals s = [] \<and> terminalPrec s = []) \<and>
     (\<forall>a<i. \<forall>b<i. a \<noteq> b \<and> mapping ! a = mapping ! b \<longrightarrow> (a, b) \<notin> set ps)"

lemma assign_inv_new:
  assumes "assign_inv ps i newStates mapping"
  shows "assign_inv ps (Suc i) (newStates @ [new_State (length newStates) items]) (mapping @ [length newStates])"
proof -
  from assms have len: "length mapping = i" and le: "length newStates \<le> i"
    and rng: "\<forall>k<i. mapping ! k < length newStates"
    and fresh: "\<forall>s\<in>set newStates. terminals s = [] \<and> terminalPrec s = []"
    and nc: "\<forall>a<i. \<forall>b<i. a \<noteq> b \<and> mapping ! a = mapping ! b \<longrightarrow> (a, b) \<notin> set ps"
    by (simp_all add: assign_inv_def)
  let ?m = "mapping @ [length newStates]"
  have r: "\<forall>k<Suc i. ?m ! k < Suc (length newStates)"
    using rng len by (auto simp: nth_append less_Suc_eq)
  have old: "?m ! k = mapping ! k" if "k < i" for k using that len by (simp add: nth_append)
  have new: "?m ! i = length newStates" using len by (simp add: nth_append)
  have n: "(a, b) \<notin> set ps" if "a < Suc i" "b < Suc i" "a \<noteq> b" "?m ! a = ?m ! b" for a b
  proof (cases "a < i \<and> b < i")
    case True
    with that old nc show ?thesis by simp
  next
    case False
    with that have "(a = i \<and> b < i) \<or> (b = i \<and> a < i)" by auto
    with that old new rng show ?thesis by (metis less_irrefl)
  qed
  show ?thesis
    unfolding assign_inv_def using len le r fresh n by (auto simp: new_State_def)
qed

lemma assign_inv_old:
  assumes "assign_inv ps i newStates mapping" and g: "g < length newStates"
    and free: "\<not> hasConflict i g mapping (flat ps)"
  shows "assign_inv ps (Suc i) newStates (mapping @ [g])"
proof -
  from assms have len: "length mapping = i" and le: "length newStates \<le> i"
    and rng: "\<forall>k<i. mapping ! k < length newStates"
    and fresh: "\<forall>s\<in>set newStates. terminals s = [] \<and> terminalPrec s = []"
    and nc: "\<forall>a<i. \<forall>b<i. a \<noteq> b \<and> mapping ! a = mapping ! b \<longrightarrow> (a, b) \<notin> set ps"
    by (simp_all add: assign_inv_def)
  let ?m = "mapping @ [g]"
  have r: "\<forall>k<Suc i. ?m ! k < length newStates"
    using rng len g by (auto simp: nth_append less_Suc_eq)
  have old: "?m ! k = mapping ! k" if "k < i" for k using that len by (simp add: nth_append)
  have new: "?m ! i = g" using len by (simp add: nth_append)
  have n: "(a, b) \<notin> set ps" if "a < Suc i" "b < Suc i" "a \<noteq> b" "?m ! a = ?m ! b" for a b
  proof (cases "a < i \<and> b < i")
    case True
    with that old nc show ?thesis by simp
  next
    case False
    with that have "(a = i \<and> b < i) \<or> (b = i \<and> a < i)" by auto
    then show ?thesis
    proof
      assume h: "a = i \<and> b < i"
      with that old new have "mapping ! b = g" by simp
      with h len free hasConflict_intro [of a b ps i mapping g] show ?thesis by blast
    next
      assume h: "b = i \<and> a < i"
      with that old new have "mapping ! a = g" by simp
      with h len free hasConflict_intro [of a b ps i mapping g] show ?thesis by blast
    qed
  qed
  show ?thesis
    unfolding assign_inv_def using len le r fresh n by auto
qed

lemma assign_props:
  "assign_inv ps i newStates mapping \<Longrightarrow> i \<le> length states \<Longrightarrow>
   assign states (flat ps) i newStates mapping = (ns, m) \<Longrightarrow> assign_inv ps (length states) ns m"
proof (induction "length states - i" arbitrary: i newStates mapping)
  case 0
  then have "i = length states" by simp
  with 0 show ?case by (subst (asm) assign.simps) simp
next
  case (Suc d)
  then have lt: "i < length states" by simp
  let ?items = "core_items (state_set (states ! i)) []"
  let ?found = "findIndex (\<lambda>s index. cmpSet (state_set s) ?items cmpSimple = 0 \<and>
                                           \<not> hasConflict i index mapping (flat ps)) newStates 0"
  show ?case
  proof (cases ?found)
    case None
    with Suc.prems(3) lt
    have r: "assign states (flat ps) (Suc i)
               (newStates @ [new_State (length newStates) ?items]) (mapping @ [length newStates]) = (ns, m)"
      by (subst (asm) assign.simps) (simp add: Let_def)
    from Suc.hyps(2) have d: "d = length states - Suc i" by simp
    from Suc.hyps(1) [OF d assign_inv_new [OF Suc.prems(1)] _ r] lt show ?thesis by simp
  next
    case (Some g)
    with Suc.prems(3) lt
    have r: "assign states (flat ps) (Suc i) newStates (mapping @ [g]) = (ns, m)"
      by (subst (asm) assign.simps) (simp add: Let_def)
    from findIndex_Some [OF Some] have g: "g < length newStates"
      and free: "\<not> hasConflict i g mapping (flat ps)" by simp_all
    from Suc.hyps(2) have d: "d = length states - Suc i" by simp
    from Suc.hyps(1) [OF d assign_inv_old [OF Suc.prems(1) g free] _ r] lt show ?thesis by simp
  qed
qed

lemma set_merged_pairs:
  "set (merged_pairs m g) =
     {(i, j). i < length m \<and> j < length m \<and> j \<noteq> i \<and> m ! i = g \<and> m ! j = g}"
  by (auto simp: merged_pairs_def)
text \<open>
  What the second loop of a pass keeps: every entry of a new state that is not known to
  conflict comes from one of the states merged into it so far.
\<close>

definition merge_inv :: "State list \<Rightarrow> nat list \<Rightarrow> nat \<Rightarrow> State list \<Rightarrow> nat list \<Rightarrow> bool" where
  "merge_inv states mapping i newStates conflicting \<longleftrightarrow>
     (\<forall>s\<in>set newStates. synced s) \<and>
     (\<forall>g<length newStates. g \<notin> set conflicting \<longrightarrow>
        (\<forall>e\<in>set (entries (newStates ! g)).
           \<exists>x<i. mapping ! x = g \<and> e \<in> set (mapped mapping (length newStates) (states ! x))))"

lemma merge_inv_skip:
  "merge_inv states mapping i newStates conflicting \<Longrightarrow> merge_inv states mapping (Suc i) newStates conflicting"
  unfolding merge_inv_def by (meson less_Suc_eq)

lemma merge_inv_update:
  assumes inv: "merge_inv states mapping i newStates conflicting"
    and g: "g < length newStates" "mapping ! i = g"
    and t: "synced t"
    and sub: "g \<notin> set cf' \<Longrightarrow> set (entries t) \<subseteq> set (entries (newStates ! g)) \<union>
                set (mapped mapping (length newStates) (states ! i))"
    and cf: "set conflicting \<subseteq> set cf'" "set cf' \<subseteq> insert g (set conflicting)"
  shows "merge_inv states mapping (Suc i) (newStates[g := t]) cf'"
proof -
  from inv have sy: "\<forall>s\<in>set newStates. synced s"
    and en: "\<And>h e. h < length newStates \<Longrightarrow> h \<notin> set conflicting \<Longrightarrow> e \<in> set (entries (newStates ! h)) \<Longrightarrow>
        \<exists>x<i. mapping ! x = h \<and> e \<in> set (mapped mapping (length newStates) (states ! x))"
    unfolding merge_inv_def by blast+
  have s: "\<forall>s\<in>set (newStates[g := t]). synced s"
    using sy t by (auto dest: subsetD [OF set_update_subset_insert])
  have e: "\<exists>x<Suc i. mapping ! x = h \<and> e \<in> set (mapped mapping (length newStates) (states ! x))"
    if h: "h < length newStates" "h \<notin> set cf'" and e: "e \<in> set (entries (newStates[g := t] ! h))" for h e
  proof (cases "h = g")
    case True
    with e g have "e \<in> set (entries t)" by simp
    with sub h True have "e \<in> set (entries (newStates ! g)) \<or>
       e \<in> set (mapped mapping (length newStates) (states ! i))" by blast
    then show ?thesis
    proof
      assume "e \<in> set (entries (newStates ! g))"
      with en [of g e] g h cf True obtain x where "x < i" "mapping ! x = g"
        "e \<in> set (mapped mapping (length newStates) (states ! x))" by blast
      with True show ?thesis using less_Suc_eq by blast
    next
      assume "e \<in> set (mapped mapping (length newStates) (states ! i))"
      with g True show ?thesis by blast
    qed
  next
    case False
    with e have "e \<in> set (entries (newStates ! h))" by simp
    with en [of h e] h cf obtain x where "x < i" "mapping ! x = h"
        "e \<in> set (mapped mapping (length newStates) (states ! x))" by blast
    then show ?thesis using less_Suc_eq by blast
  qed
  show ?thesis unfolding merge_inv_def using s e by simp
qed

lemma merge_all_props:
  assumes good: "\<forall>s\<in>set states. synced s \<and> distinct (map action_term (terminals s))"
    and len: "length mapping = length states"
    and rng: "\<forall>k<length states. mapping ! k < N"
  shows "length newStates = N \<Longrightarrow> merge_inv states mapping i newStates conflicting \<Longrightarrow>
     i \<le> length states \<Longrightarrow>
     \<exists>ns cf ps'. merge_all states mapping i newStates conflicting (flat ps) = Inr (ns, cf, flat (ps @ ps')) \<and>
       length ns = N \<and>
       (cf \<noteq> [] \<longrightarrow> conflicting \<noteq> [] \<or>
          (\<exists>(x, c)\<in>set ps'. x < length states \<and> c < length states \<and> x \<noteq> c \<and> mapping ! x = mapping ! c))"
proof (induction "length states - i" arbitrary: i newStates conflicting ps)
  case 0
  then have "merge_all states mapping i newStates conflicting (flat ps) = Inr (newStates, conflicting, flat (ps @ []))"
    by (subst merge_all.simps) simp
  with 0 show ?case by blast
next
  case (Suc d)
  then have lt: "i < length states" by simp
  from Suc.hyps(2) have d: "d = length states - Suc i" by simp
  from lt have le: "Suc i \<le> length states" by simp
  let ?g = "mapping ! i"
  from rng lt Suc.prems(1) have g: "?g < length newStates" by simp
  show ?case
  proof (cases "?g \<in> set conflicting")
    case True
    with lt have eq: "merge_all states mapping i newStates conflicting (flat ps) =
       merge_all states mapping (Suc i) newStates conflicting (flat ps)"
      by (subst merge_all.simps) (simp add: Let_def)
    from Suc.hyps(1) [OF d Suc.prems(1) merge_inv_skip [OF Suc.prems(2)] le, of ps] eq
    show ?thesis by simp
  next
    case False
    from Suc.prems(2) g have st: "synced (newStates ! ?g)" by (simp add: merge_inv_def)
    from good lt have si: "synced (states ! i)" "distinct (map action_term (terminals (states ! i)))"
      by simp_all
    from mergeState_props [OF st si(1), of mapping "length newStates"]
    obtain ok t where r: "mergeState mapping (length newStates) (states ! i) (newStates ! ?g) = Inr (ok, t)"
      and sy: "synced t"
      and sub: "set (entries t) \<subseteq> set (entries (newStates ! ?g)) \<union>
                  set (mapped mapping (length newStates) (states ! i))"
      by blast
    show ?thesis
    proof (cases ok)
      case True
      with lt False r have eq: "merge_all states mapping i newStates conflicting (flat ps) =
         merge_all states mapping (Suc i) (newStates[?g := t]) conflicting (flat ps)"
        by (subst merge_all.simps) (simp add: Let_def)
      have inv: "merge_inv states mapping (Suc i) (newStates[?g := t]) conflicting"
        using sub by (intro merge_inv_update [OF Suc.prems(2) g refl sy]) auto
      have l: "length (newStates[?g := t]) = N" using Suc.prems(1) by simp
      from Suc.hyps(1) [OF d l inv le, of ps] eq show ?thesis by simp
    next
      case ff: False
      from r ff have rf: "mergeState mapping (length newStates) (states ! i) (newStates ! ?g) = Inr (False, t)"
        by simp
      from mergeState_fail_target [OF st si rf]
      obtain j e where j: "j < length (terminals (states ! i))"
        and e: "e \<in> set (entries (newStates ! ?g))"
        and w: "on_term (action_term (terminals (states ! i) ! j)) e"
          "\<not> action_eq (fst e) (map_action mapping (length newStates) (terminals (states ! i) ! j))"
          "check_prec (fst e) (snd e) (terminalPrec (states ! i) ! j) = Undecided"
        by blast
      from Suc.prems(2) g False e obtain x where x: "x < i" "mapping ! x = ?g"
        and ex: "e \<in> set (mapped mapping (length newStates) (states ! x))"
        unfolding merge_inv_def by blast
      from j ex w have cl: "clash mapping (length newStates) (states ! x) (states ! i)"
        unfolding clash_def by blast
      from x lt len have mem: "(x, i) \<in> set (merged_pairs mapping ?g)"
        by (simp add: set_merged_pairs)
      have bound: "\<forall>(a, b)\<in>set (merged_pairs mapping ?g). a < length states \<and> b < length states"
        using len by (auto simp: set_merged_pairs)
      from mark_pairs_props [OF good bound, of mapping "length newStates" ps]
      obtain ps1 where r1: "mark_pairs mapping (length newStates) states (merged_pairs mapping ?g) (flat ps) =
            Inr (flat (ps @ ps1))"
        and w1: "\<forall>(a, b)\<in>set (merged_pairs mapping ?g).
            clash mapping (length newStates) (states ! a) (states ! b) \<longrightarrow> (a, b) \<in> set ps1"
        by blast
      from w1 mem cl have in1: "(x, i) \<in> set ps1" by blast
      from lt False r ff r1 have eq: "merge_all states mapping i newStates conflicting (flat ps) =
         merge_all states mapping (Suc i) (newStates[?g := t]) (conflicting @ [?g]) (flat (ps @ ps1))"
        by (subst merge_all.simps) (simp add: Let_def markConflicts_def)
      have inv: "merge_inv states mapping (Suc i) (newStates[?g := t]) (conflicting @ [?g])"
        by (intro merge_inv_update [OF Suc.prems(2) g refl sy]) auto
      have l: "length (newStates[?g := t]) = N" using Suc.prems(1) by simp
      from Suc.hyps(1) [OF d l inv le, of "ps @ ps1"]
      obtain ns cf ps2 where r2: "merge_all states mapping (Suc i) (newStates[?g := t]) (conflicting @ [?g])
            (flat (ps @ ps1)) = Inr (ns, cf, flat ((ps @ ps1) @ ps2))"
        and ln: "length ns = N" by blast
      have "merge_all states mapping i newStates conflicting (flat ps) = Inr (ns, cf, flat (ps @ (ps1 @ ps2)))"
        using eq r2 by simp
      moreover have "\<exists>(a, c)\<in>set (ps1 @ ps2). a < length states \<and> c < length states \<and> a \<noteq> c \<and>
           mapping ! a = mapping ! c"
        using in1 x lt by (intro bexI [of _ "(x, i)"]) auto
      ultimately show ?thesis using ln by blast
    qed
  qed
qed

lemma collapse_pass_props:
  assumes good: "\<forall>s\<in>set states. synced s \<and> distinct (map action_term (terminals s))"
  shows "\<exists>ns cf ps'. collapse_pass states (flat ps) = Inr (ns, cf, flat (ps @ ps')) \<and>
       length ns \<le> length states \<and>
       (cf \<noteq> [] \<longrightarrow> (\<exists>(x, c)\<in>set ps'. x < length states \<and> c < length states \<and> (x, c) \<notin> set ps))"
proof -
  obtain ns0 m where a: "assign states (flat ps) 0 [] [] = (ns0, m)" by (cases "assign states (flat ps) 0 [] []")
  have "assign_inv ps 0 [] []" by (simp add: assign_inv_def)
  from assign_props [OF this _ a]
  have inv: "assign_inv ps (length states) ns0 m" by simp
  then have len: "length m = length states" and le: "length ns0 \<le> length states"
    and rng: "\<forall>k<length states. m ! k < length ns0"
    and fresh: "\<forall>s\<in>set ns0. terminals s = [] \<and> terminalPrec s = []"
    and nc: "\<And>a b. a < length states \<Longrightarrow> b < length states \<Longrightarrow> a \<noteq> b \<Longrightarrow> m ! a = m ! b \<Longrightarrow> (a, b) \<notin> set ps"
    unfolding assign_inv_def by blast+
  have mi: "merge_inv states m 0 ns0 []"
    unfolding merge_inv_def using fresh by (auto simp: synced_def entries_def)
  from merge_all_props [OF good len rng refl mi, of ps]
  obtain ns cf ps' where r: "merge_all states m 0 ns0 [] (flat ps) = Inr (ns, cf, flat (ps @ ps'))"
    and ln: "length ns = length ns0"
    and w0: "cf \<noteq> [] \<longrightarrow> ([] :: nat list) \<noteq> [] \<or>
          (\<exists>(x, c)\<in>set ps'. x < length states \<and> c < length states \<and> x \<noteq> c \<and> m ! x = m ! c)"
    by blast
  from w0 have w: "cf \<noteq> [] \<longrightarrow> (\<exists>(x, c)\<in>set ps'. x < length states \<and> c < length states \<and> x \<noteq> c \<and> m ! x = m ! c)"
    by simp
  have "collapse_pass states (flat ps) = Inr (ns, cf, flat (ps @ ps'))"
    using a r by (simp add: collapse_pass_def)
  moreover have "cf \<noteq> [] \<longrightarrow> (\<exists>(x, c)\<in>set ps'. x < length states \<and> c < length states \<and> (x, c) \<notin> set ps)"
    using w nc by fastforce
  ultimately show ?thesis using ln le by auto
qed

lemma collapse_loop_returns:
  assumes good: "\<forall>s\<in>set states. synced s \<and> distinct (map action_term (terminals s))"
  shows "\<exists>ns. collapse_loop states (flat ps) = Some (Inr ns) \<and> length ns \<le> length states"
proof (induction "card (({..<length states} \<times> {..<length states}) - set ps)" arbitrary: ps rule: less_induct)
  case less
  let ?U = "{..<length states} \<times> {..<length states}"
  from collapse_pass_props [OF good, of ps]
  obtain ns cf ps' where r: "collapse_pass states (flat ps) = Inr (ns, cf, flat (ps @ ps'))"
    and ln: "length ns \<le> length states"
    and w: "cf \<noteq> [] \<longrightarrow> (\<exists>(x, c)\<in>set ps'. x < length states \<and> c < length states \<and> (x, c) \<notin> set ps)"
    by blast
  show ?case
  proof (cases "cf = []")
    case True
    with r ln show ?thesis by (subst collapse_loop.simps) simp
  next
    case False
    with w obtain x c where xc: "(x, c) \<in> set ps'" "x < length states" "c < length states" "(x, c) \<notin> set ps"
      by blast
    have "?U - set (ps @ ps') \<subset> ?U - set ps"
      using xc by auto
    moreover have "finite (?U - set ps)" by simp
    ultimately have "card (?U - set (ps @ ps')) < card (?U - set ps)"
      by (rule psubset_card_mono [rotated])
    from less [OF this] obtain ns' where "collapse_loop states (flat (ps @ ps')) = Some (Inr ns')"
      "length ns' \<le> length states" by blast
    with r False show ?thesis by (subst collapse_loop.simps) simp
  qed
qed
text \<open>
  Two states with the same core whose reductions on \<open>t\<close> are by different rules of equal
  precedence; each state has one action per terminal.
\<close>

definition plain_states :: "State list" where
  "plain_states =
     [l_state 0 [(''D'', ''t''), (''E'', ''s'')],
      l_state 1 [(''D'', ''s''), (''E'', ''t'')]]"

text \<open>
  Where every state of the input has one list of precedences per action and at most one
  action per terminal, the pairwise merges do find the conflict: every pass that
  restarts records a pair of states of one partition that was not recorded before
  (\<open>collapse_pass_props\<close>), which bounds the number of passes by the number of pairs of
  states, and \<open>collapseAutomaton\<close> returns, without an error, an automaton with at most one
  state per original state.
\<close>

lemma collapseAutomaton_returns:
  assumes "\<forall>s\<in>set states. length (terminalPrec s) = length (terminals s) \<and>
             distinct (map action_term (terminals s))"
  shows "\<exists>ns. collapseAutomaton states = Some (Inr ns) \<and> length ns \<le> length states"
proof -
  from assms have "\<forall>s\<in>set states. synced s \<and> distinct (map action_term (terminals s))"
    by (simp add: synced_def)
  from collapse_loop_returns [OF this, of "[]"] show ?thesis
    by (simp add: collapseAutomaton_def)
qed

lemma collapseAutomaton_returns_plain:
  "\<exists>ns. collapseAutomaton plain_states = Some (Inr ns) \<and> length ns \<le> length plain_states"
  using collapseAutomaton_returns [of plain_states]
  by (simp add: plain_states_def l_state_def g_term_def)

section \<open>Character sets (src/parse.ts, src/build.ts)\<close>

text \<open>
  A character range is a pair \<open>[from, to)\<close> of code points, the upper bound excluded: the
  parser stores \<open>[code, end + 1]\<close>, and the tokenizer's edges read a pair the same way.
\<close>

definition MAX_CODE :: nat where "MAX_CODE = 0x10ffff"

subsection \<open>Ranges of a set expression (parseExprInner, addRange)\<close>

datatype parse_error = InvalidRange | OverlappingRange

text \<open>\<open>addRange\<close> raises on a range that overlaps one already there, and pushes otherwise.\<close>

definition addRange :: "(nat \<times> nat) list \<Rightarrow> nat \<Rightarrow> nat \<Rightarrow> parse_error + (nat \<times> nat) list" where
  "addRange ranges from to =
     (if \<not> list_all (\<lambda>(a, b). b \<le> from \<or> a \<ge> to) ranges then Inl OverlappingRange
      else Inr (ranges @ [(from, to)]))"

text \<open>
  The loop of \<open>parseExprInner\<close> over the content of a set: each element is a code point,
  alone or followed by the marker and the end of its range. The decoding of the text into
  code points is not modelled; the elements are given. The result is sorted by start.
\<close>

fun set_ranges :: "(nat \<times> nat option) list \<Rightarrow> (nat \<times> nat) list \<Rightarrow> parse_error + (nat \<times> nat) list" where
  "set_ranges [] ranges = Inr (sort_key fst ranges)"
| "set_ranges ((code, Some hi) # items) ranges =
     (if hi < code then Inl InvalidRange
      else case addRange ranges code (hi + 1) of
             Inl e \<Rightarrow> Inl e
           | Inr ranges' \<Rightarrow> set_ranges items ranges')"
| "set_ranges ((code, None) # items) ranges =
     (case addRange ranges code (code + 1) of
        Inl e \<Rightarrow> Inl e
      | Inr ranges' \<Rightarrow> set_ranges items ranges')"

subsection \<open>invertRanges\<close>

fun invertRanges_loop :: "(nat \<times> nat) list \<Rightarrow> nat \<Rightarrow> (nat \<times> nat) list \<Rightarrow> (nat \<times> nat) list" where
  "invertRanges_loop [] posn result =
     (if posn \<le> MAX_CODE then result @ [(posn, MAX_CODE + 1)] else result)"
| "invertRanges_loop ((a, b) # ranges) posn result =
     invertRanges_loop ranges b (if a > posn then result @ [(posn, a)] else result)"

definition invertRanges :: "(nat \<times> nat) list \<Rightarrow> (nat \<times> nat) list" where
  "invertRanges ranges = invertRanges_loop ranges 0 []"

text \<open>
  The vocabulary of the claim: the code points a list of ranges covers; a range of code
  points (not empty, within \<open>[0, MAX_CODE]\<close>); two ranges in order of their starts that do
  not overlap, by the test of \<open>addRange\<close>; ranges that do not overlap, in any order.
\<close>

definition covers :: "(nat \<times> nat) list \<Rightarrow> nat \<Rightarrow> bool" where
  "covers rs c = list_ex (\<lambda>(a, b). a \<le> c \<and> c < b) rs"

definition char_range :: "nat \<times> nat \<Rightarrow> bool" where
  "char_range r = (fst r < snd r \<and> snd r \<le> MAX_CODE + 1)"

definition apart :: "nat \<times> nat \<Rightarrow> nat \<times> nat \<Rightarrow> bool" where
  "apart r s = (fst r \<le> fst s \<and> (snd r \<le> fst s \<or> snd s \<le> fst r))"

definition separate :: "(nat \<times> nat) list \<Rightarrow> bool" where
  "separate rs = sorted_wrt (\<lambda>r s. snd r \<le> fst s \<or> snd s \<le> fst r) rs"

subsection \<open>What the parser hands to \<open>invertRanges\<close>\<close>

lemma addRange_inv:
  assumes "addRange rs a b = Inr rs'" "a < b" "b \<le> MAX_CODE + 1"
    and "list_all char_range rs" "separate rs"
  shows "list_all char_range rs' \<and> separate rs'"
proof -
  from assms(1) have rs': "rs' = rs @ [(a, b)]"
    and free: "\<forall>r\<in>set rs. snd r \<le> a \<or> b \<le> fst r"
    by (auto simp: addRange_def list_all_iff split: if_splits)
  from free assms(5) have "separate rs'"
    unfolding rs' separate_def by (simp add: sorted_wrt_append)
  moreover from assms(2-4) have "list_all char_range rs'"
    unfolding rs' by (simp add: char_range_def)
  ultimately show ?thesis by simp
qed

lemma sorted_apart:
  assumes "list_all char_range rs" "separate rs"
  shows "sorted_wrt apart (sort_key fst rs)"
proof -
  let ?xs = "sort_key fst rs"
  have ne: "fst r < snd r" if "r \<in> set rs" for r
    using assms(1) that by (auto simp: list_all_iff char_range_def)
  have sep: "snd (rs ! i) \<le> fst (rs ! j) \<or> snd (rs ! j) \<le> fst (rs ! i)"
    if "i < j" "j < length rs" for i j
    using assms(2) that unfolding separate_def sorted_wrt_iff_nth_less by blast
  have dist: "distinct rs"
    unfolding distinct_conv_nth
  proof (intro allI impI)
    fix i j assume ij: "i < length rs" "j < length rs" "i \<noteq> j"
    show "rs ! i \<noteq> rs ! j"
    proof
      assume eq: "rs ! i = rs ! j"
      from ij consider "i < j" | "j < i" by linarith
      then have "snd (rs ! i) \<le> fst (rs ! i)"
        using sep ij eq by cases force+
      moreover have "fst (rs ! i) < snd (rs ! i)" using ne ij(1) by simp
      ultimately show False by simp
    qed
  qed
  have pair: "snd r \<le> fst s \<or> snd s \<le> fst r"
    if "r \<in> set rs" "s \<in> set rs" "r \<noteq> s" for r s
  proof -
    from that obtain i j where ij: "i < length rs" "j < length rs" "rs ! i = r" "rs ! j = s"
      by (metis in_set_conv_nth)
    with that(3) have "i \<noteq> j" by auto
    then consider "i < j" | "j < i" by linarith
    then show ?thesis using sep ij by cases force+
  qed
  have "apart (?xs ! i) (?xs ! j)" if "i < j" "j < length ?xs" for i j
  proof -
    have "sorted (map fst ?xs)" by simp
    then have "fst (?xs ! i) \<le> fst (?xs ! j)"
      using that by (simp add: sorted_iff_nth_mono)
    moreover have "?xs ! i \<noteq> ?xs ! j"
      using dist that by (simp add: nth_eq_iff_index_eq)
    moreover have "?xs ! i \<in> set rs" "?xs ! j \<in> set rs"
      using that by (metis nth_mem set_sort order_less_trans)+
    ultimately show ?thesis using pair by (simp add: apart_def)
  qed
  then show ?thesis by (simp add: sorted_wrt_iff_nth_less)
qed

text \<open>
  Every list of ranges that the set parser returns, from code points up to \<open>MAX_CODE\<close>,
  consists of character ranges, sorted by start and pairwise apart.
\<close>

lemma set_ranges_inv:
  assumes "set_ranges items rs = Inr out"
    and "\<forall>(c, e)\<in>set items. c \<le> MAX_CODE \<and> (\<forall>x. e = Some x \<longrightarrow> x \<le> MAX_CODE)"
    and "list_all char_range rs" "separate rs"
  shows "list_all char_range out \<and> sorted_wrt apart out"
  using assms
proof (induction items rs rule: set_ranges.induct)
  case (1 ranges)
  then show ?case by (auto simp: sorted_apart list_all_iff)
next
  case (2 code hi items ranges)
  from "2.prems"(1) obtain rs' where ok: "\<not> hi < code" "addRange ranges code (hi + 1) = Inr rs'"
    and rest: "set_ranges items rs' = Inr out"
    by (auto split: if_splits sum.splits)
  from "2.prems"(2) have "hi \<le> MAX_CODE" by auto
  with ok have "list_all char_range rs' \<and> separate rs'"
    using "2.prems"(3,4) by (intro addRange_inv [of ranges code "hi + 1"]) auto
  with "2.IH" [OF ok rest] "2.prems"(2) show ?case by auto
next
  case (3 code items ranges)
  from "3.prems"(1) obtain rs' where ok: "addRange ranges code (code + 1) = Inr rs'"
    and rest: "set_ranges items rs' = Inr out"
    by (auto split: sum.splits)
  from "3.prems"(2) have "code \<le> MAX_CODE" by auto
  with ok have "list_all char_range rs' \<and> separate rs'"
    using "3.prems"(3,4) by (intro addRange_inv [of ranges code "code + 1"]) auto
  with "3.IH" [OF ok rest] "3.prems"(2) show ?case by auto
qed

subsection \<open>The complement\<close>

lemma invertRanges_loop_append:
  "invertRanges_loop rs posn (xs @ ys) = xs @ invertRanges_loop rs posn ys"
  by (induction rs posn ys arbitrary: xs rule: invertRanges_loop.induct) auto

lemma invertRanges_loop_Cons:
  "invertRanges_loop ((a, b) # rs) posn [] =
     (if a > posn then [(posn, a)] else []) @ invertRanges_loop rs b []"
  using invertRanges_loop_append [of rs b "[(posn, a)]" "[]"] by simp

lemma covers_Nil: "covers [] c = False"
  by (simp add: covers_def)

lemma covers_Cons: "covers ((a, b) # rs) c = ((a \<le> c \<and> c < b) \<or> covers rs c)"
  by (simp add: covers_def)

lemma covers_append: "covers (xs @ ys) c = (covers xs c \<or> covers ys c)"
  by (induction xs) (auto simp: covers_def)

lemma invertRanges_loop_gaps:
  assumes "list_all char_range rs" "sorted_wrt apart rs" "\<forall>r\<in>set rs. posn \<le> fst r"
  shows "(\<forall>c. covers (invertRanges_loop rs posn []) c \<longleftrightarrow>
              posn \<le> c \<and> c \<le> MAX_CODE \<and> \<not> covers rs c)
       \<and> (\<forall>r\<in>set (invertRanges_loop rs posn []).
              posn \<le> fst r \<and> fst r < snd r \<and> snd r \<le> MAX_CODE + 1)
       \<and> sorted_wrt apart (invertRanges_loop rs posn [])"
  using assms
proof (induction rs arbitrary: posn)
  case Nil
  then show ?case by (auto simp: covers_def apart_def)
next
  case (Cons r rs)
  obtain a b where r: "r = (a, b)" by (cases r)
  from Cons.prems r have ab: "a < b" "b \<le> MAX_CODE + 1" "posn \<le> a"
    by (auto simp: char_range_def)
  have later: "\<forall>s\<in>set rs. b \<le> fst s"
  proof
    fix s assume s: "s \<in> set rs"
    with Cons.prems(2) r have "apart (a, b) s" by auto
    moreover from s Cons.prems(1) have "fst s < snd s"
      by (auto simp: char_range_def list_all_iff)
    ultimately show "b \<le> fst s" using ab by (auto simp: apart_def)
  qed
  from Cons.prems have "list_all char_range rs" "sorted_wrt apart rs" by auto
  from Cons.IH [OF this later]
  have IH1: "\<And>c. covers (invertRanges_loop rs b []) c \<longleftrightarrow>
               b \<le> c \<and> c \<le> MAX_CODE \<and> \<not> covers rs c"
    and IH2: "\<And>s. s \<in> set (invertRanges_loop rs b []) \<Longrightarrow>
               b \<le> fst s \<and> fst s < snd s \<and> snd s \<le> MAX_CODE + 1"
    and IH3: "sorted_wrt apart (invertRanges_loop rs b [])"
    by blast+
  have nocov: "\<And>c. c < b \<Longrightarrow> \<not> covers rs c"
    using later by (auto simp: covers_def list_ex_iff)
  have 1: "\<forall>c. covers (invertRanges_loop (r # rs) posn []) c \<longleftrightarrow>
              posn \<le> c \<and> c \<le> MAX_CODE \<and> \<not> covers (r # rs) c"
    unfolding r invertRanges_loop_Cons using IH1 ab nocov
    by (auto simp: covers_append covers_Cons covers_Nil)
  have 2: "\<forall>s\<in>set (invertRanges_loop (r # rs) posn []).
              posn \<le> fst s \<and> fst s < snd s \<and> snd s \<le> MAX_CODE + 1"
    unfolding r invertRanges_loop_Cons using IH2 ab by fastforce
  have 3: "sorted_wrt apart (invertRanges_loop (r # rs) posn [])"
    unfolding r invertRanges_loop_Cons using IH2 IH3 ab
    by (fastforce simp: apart_def sorted_wrt_append)
  from 1 2 3 show ?case by blast
qed

text \<open>
  Claim C10. For a list of character ranges (each not empty and within
  \<open>[0, 0x10FFFF]\<close>, as the set parser produces them, see \<open>set_ranges_inv\<close>) that is
  sorted by start and pairwise disjoint, \<open>invertRanges\<close> returns a list of character
  ranges, sorted by start and pairwise disjoint, that covers exactly the code points of
  \<open>[0, 0x10FFFF]\<close> that the input does not cover.
\<close>

theorem invertRanges_complement:
  assumes "list_all char_range ranges" and "sorted_wrt apart ranges"
  shows "sorted_wrt apart (invertRanges ranges) \<and> list_all char_range (invertRanges ranges) \<and>
         (\<forall>c. covers (invertRanges ranges) c \<longleftrightarrow> c \<le> MAX_CODE \<and> \<not> covers ranges c)"
  using invertRanges_loop_gaps [OF assms, of 0]
  by (auto simp: invertRanges_def list_all_iff char_range_def)

text \<open>The set \<open>[^a-z0-9]\<close>: the digit \<open>5\<close> is left out, the letter \<open>A\<close> is covered.\<close>

theorem invertRanges_complement_witness:
  "sorted_wrt apart (invertRanges [(48, 58), (97, 123)]) \<and>
   \<not> covers (invertRanges [(48, 58), (97, 123)]) 53 \<and>
   covers (invertRanges [(48, 58), (97, 123)]) 65"
  using invertRanges_complement [of "[(48, 58), (97, 123)]"]
  by (simp add: char_range_def apart_def MAX_CODE_def covers_Cons covers_Nil)

section \<open>Table generation (src/build.ts)\<close>

text \<open>
  \<open>build.ts\<close> works on the \<open>Term\<close>, \<open>Rule\<close> and \<open>Pos\<close> classes of the modules \<open>./grammar\<close>
  and \<open>./automaton\<close> it imports, whose declarations are not among the sources (the
  files under \<open>src/grammar/\<close> are an earlier form, without \<open>skip\<close>, \<open>id\<close> or \<open>top\<close>). The
  records below hold the fields and getters that the functions modelled here read; a
  getter's value is a field. Object identity is equality of the fields.
\<close>

record BTerm =
  term_name :: string
  term_id :: nat
  top :: bool
  interesting :: bool

record BRule =
  rname :: BTerm
  rparts :: "BTerm list"
  skip :: BTerm
  isRepeatLeaf :: bool

record BPos =
  prule :: BRule
  ppos :: nat

text \<open>
  The constants of \<open>Action\<close> come from the parser runtime (\<open>lezer/src/constants\<close>), not
  from this repository: they are parameters. \<open>lezer_consts\<close> holds the values the runtime
  of that time declares, for running the functions.
\<close>

record ActionConsts =
  ReduceFlag :: "32 word"
  RepeatFlag :: "32 word"
  StayFlag :: "32 word"
  ReduceDepthShift :: nat

definition lezer_consts :: ActionConsts where
  "lezer_consts = \<lparr>ReduceFlag = push_bit 16 1, RepeatFlag = push_bit 17 1,
     StayFlag = push_bit 18 1, ReduceDepthShift = 19\<rparr>"

subsection \<open>reduceAction and the forced reduction of finishState\<close>

text \<open>
  JavaScript's \<open>|\<close> and \<open><<\<close> work on 32-bit integers, \<open><<\<close> with the shift count modulo 32;
  the value is stored in a \<open>Uint32Array\<close>, so it is a 32-bit word.
\<close>

definition reduceAction :: "ActionConsts \<Rightarrow> BRule \<Rightarrow> BTerm option \<Rightarrow> nat \<Rightarrow> 32 word" where
  "reduceAction K r partOfSkip depth =
     word_of_nat (term_id (rname r)) OR ReduceFlag K OR
     (if isRepeatLeaf r \<and> depth = length (rparts r) then RepeatFlag K else 0) OR
     (if Some (rname r) = partOfSkip then StayFlag K else 0) OR
     push_bit (ReduceDepthShift K mod 32) (word_of_nat depth)"

text \<open>
  The callback of \<open>positions.reduce\<close>:
  \<open>a.pos - b.pos || b.rule.parts.length - a.rule.parts.length < 0 ? b : a\<close>. The
  conditional operator binds weakest and \<open><\<close> binds tighter than \<open>||\<close>, so the test is
  \<open>(a.pos - b.pos) || (b.rule.parts.length - a.rule.parts.length < 0)\<close>.
\<close>

definition pick :: "BPos \<Rightarrow> BPos \<Rightarrow> BPos" where
  "pick a b =
     (if int (ppos a) - int (ppos b) \<noteq> 0 \<or>
         int (length (rparts (prule b))) - int (length (rparts (prule a))) < 0
      then b else a)"

text \<open>\<open>defaultPos\<close>: the fold over the items with the dot past position 0, if there are any.\<close>

definition defaultPos :: "BPos list \<Rightarrow> BPos option" where
  "defaultPos items =
     (let positions = filter (\<lambda>p. ppos p > 0) items
      in if positions \<noteq> [] then Some (foldl pick (hd positions) (tl positions)) else None)"

text \<open>The value \<open>finishState\<close> writes at \<open>ParseState.ForcedReduce\<close>.\<close>

definition forcedReduce :: "ActionConsts \<Rightarrow> BPos list \<Rightarrow> BTerm option \<Rightarrow> 32 word" where
  "forcedReduce K items partOfSkip =
     (case defaultPos items of
        None \<Rightarrow> 0
      | Some d \<Rightarrow>
          if \<not> top (rname (prule d)) then reduceAction K (prule d) partOfSkip (ppos d) else 0)"

text \<open>The parts after the dot.\<close>

definition remaining :: "BPos \<Rightarrow> int" where
  "remaining p = int (length (rparts (prule p))) - int (ppos p)"

text \<open>Two items of one state: \<open>A -> x x . x\<close> and \<open>B -> x . x x x x\<close>.\<close>

definition ex_sym :: "string \<Rightarrow> nat \<Rightarrow> BTerm" where
  "ex_sym n i = \<lparr>term_name = n, term_id = i, top = False, interesting = False\<rparr>"

definition ex_brule :: "string \<Rightarrow> nat \<Rightarrow> nat \<Rightarrow> BRule" where
  "ex_brule n i k = \<lparr>rname = ex_sym n i, rparts = replicate k (ex_sym ''x'' 1),
     skip = ex_sym ''%noskip'' 0, isRepeatLeaf = False\<rparr>"

definition ex_items :: "BPos list" where
  "ex_items = [\<lparr>prule = ex_brule ''A'' 5 3, ppos = 2\<rparr>, \<lparr>prule = ex_brule ''B'' 6 5, ppos = 1\<rparr>]"
subsection \<open>The forced reduction\<close>

lemma pick_same_dot:
  "ppos a = ppos b \<Longrightarrow>
   pick a b = (if length (rparts (prule b)) < length (rparts (prule a)) then b else a)"
  by (simp add: pick_def)

lemma foldl_pick_same_dot:
  assumes "\<forall>p\<in>set (a # xs). ppos p = d"
  shows "foldl pick a xs \<in> set (a # xs) \<and>
         (\<forall>p\<in>set (a # xs). length (rparts (prule (foldl pick a xs))) \<le> length (rparts (prule p)))"
  using assms
proof (induction xs arbitrary: a)
  case Nil
  then show ?case by simp
next
  case (Cons b xs)
  have ab: "ppos a = ppos b" using Cons.prems by simp
  let ?c = "pick a b"
  have c: "?c = (if length (rparts (prule b)) < length (rparts (prule a)) then b else a)"
    using ab by (rule pick_same_dot)
  then have "\<forall>p\<in>set (?c # xs). ppos p = d" using Cons.prems by auto
  from Cons.IH [OF this]
  have mem: "foldl pick ?c xs \<in> set (?c # xs)"
    and le: "\<forall>p\<in>set (?c # xs). length (rparts (prule (foldl pick ?c xs))) \<le> length (rparts (prule p))"
    by blast+
  from mem c have "foldl pick a (b # xs) \<in> set (a # b # xs)" by (auto split: if_splits)
  moreover have "\<forall>p\<in>set (a # b # xs).
      length (rparts (prule (foldl pick a (b # xs)))) \<le> length (rparts (prule p))"
  proof -
    from le have lc: "length (rparts (prule (foldl pick ?c xs))) \<le> length (rparts (prule ?c))"
      by simp
    with c have "length (rparts (prule (foldl pick ?c xs))) \<le> length (rparts (prule a))"
      and "length (rparts (prule (foldl pick ?c xs))) \<le> length (rparts (prule b))"
      by (auto split: if_splits)
    with le show ?thesis by simp
  qed
  ultimately show ?case by blast
qed

text \<open>
  Claim C7 asks for the reduction of the item with the smallest remaining suffix. The
  callback of the fold compares the dots before the rule lengths, but \<open><\<close> binds tighter
  than \<open>||\<close>, so that any difference of the dots, of either sign, selects the second item.
  With \<open>A -> x x . x\<close> (one part left) before \<open>B -> x . x x x x\<close> (four parts left), the
  value written is the reduction of \<open>B\<close> at depth 1, not that of \<open>A\<close> at depth 2.
\<close>

theorem forcedReduce_differing_dots:
  "forcedReduce lezer_consts ex_items None = reduceAction lezer_consts (ex_brule ''B'' 6 5) None 1
   \<and> remaining (ex_items ! 0) < remaining (ex_items ! 1)
   \<and> reduceAction lezer_consts (ex_brule ''B'' 6 5) None 1
       \<noteq> reduceAction lezer_consts (ex_brule ''A'' 5 3) None 2"
  by (simp add: forcedReduce_def defaultPos_def pick_def ex_items_def ex_brule_def ex_sym_def
      remaining_def reduceAction_def lezer_consts_def)

text \<open>
  Where the items with the dot past position 0 all have the dot at the same position, the
  comparison of the rule lengths decides, and the selection is the one asked for: if the
  selected item's rule is not the top rule, the forced-reduce value encodes the
  reduction, at the depth of the dot, of the selected item, and that item has the
  smallest remaining suffix among the state's items with the dot past 0.
\<close>

lemma forcedReduce_same_dot:
  assumes sel: "defaultPos items = Some d"
    and same: "\<forall>p\<in>set items. ppos p > 0 \<longrightarrow> ppos p = ppos d"
    and nontop: "\<not> top (rname (prule d))"
  shows "forcedReduce K items partOfSkip = reduceAction K (prule d) partOfSkip (ppos d) \<and>
         d \<in> set items \<and> ppos d > 0 \<and>
         (\<forall>p\<in>set items. ppos p > 0 \<longrightarrow> remaining d \<le> remaining p)"
proof -
  let ?ps = "filter (\<lambda>p. ppos p > 0) items"
  from sel have ne: "?ps \<noteq> []" and d: "d = foldl pick (hd ?ps) (tl ?ps)"
    by (auto simp: defaultPos_def Let_def split: if_splits)
  from ne have ps: "hd ?ps # tl ?ps = ?ps" by simp
  have "\<forall>p\<in>set (hd ?ps # tl ?ps). ppos p = ppos d"
    unfolding ps using same by simp
  from foldl_pick_same_dot [OF this]
  have mem: "d \<in> set ?ps"
    and le: "\<forall>p\<in>set ?ps. length (rparts (prule d)) \<le> length (rparts (prule p))"
    unfolding ps d [symmetric] by blast+
  have "forcedReduce K items partOfSkip = reduceAction K (prule d) partOfSkip (ppos d)"
    using sel nontop by (simp add: forcedReduce_def)
  moreover from mem have "d \<in> set items" "ppos d > 0" by simp_all
  moreover have "\<forall>p\<in>set items. ppos p > 0 \<longrightarrow> remaining d \<le> remaining p"
    using le same by (auto simp: remaining_def)
  ultimately show ?thesis by blast
qed

lemma forcedReduce_same_dot_example:
  "forcedReduce lezer_consts
     [\<lparr>prule = ex_brule ''A'' 5 3, ppos = 1\<rparr>, \<lparr>prule = ex_brule ''B'' 6 2, ppos = 1\<rparr>,
      \<lparr>prule = ex_brule ''C'' 7 2, ppos = 0\<rparr>] None
   = reduceAction lezer_consts (ex_brule ''B'' 6 2) None 1"
  using forcedReduce_same_dot [where d = "\<lparr>prule = ex_brule ''B'' 6 2, ppos = 1\<rparr>"
      and items = "[\<lparr>prule = ex_brule ''A'' 5 3, ppos = 1\<rparr>, \<lparr>prule = ex_brule ''B'' 6 2, ppos = 1\<rparr>,
      \<lparr>prule = ex_brule ''C'' 7 2, ppos = 0\<rparr>]" and K = lezer_consts and partOfSkip = None]
  by (simp add: defaultPos_def pick_def ex_brule_def ex_sym_def)

subsection \<open>The selection pass of inlineRules\<close>

text \<open>
  The test of the first loop of a pass, for the rule at index \<open>i\<close>, with the table
  \<open>inlinable\<close> (a dictionary from names to rules) as the earlier rounds left it.
\<close>

definition inline_test :: "BRule list \<Rightarrow> BTerm list \<Rightarrow> (string \<rightharpoonup> BRule) \<Rightarrow> nat \<Rightarrow> bool" where
  "inline_test rules preserve inlinable i =
     (let r = rules ! i in
      \<not> interesting (rname r) \<and> rname r \<notin> set (rparts r) \<and> length (rparts r) < 3 \<and>
      rname r \<notin> set preserve \<and>
      (length (rparts r) = 1 \<or>
       list_all (\<lambda>other. skip other = skip r \<or> rname r \<notin> set (rparts other)) rules) \<and>
      \<not> list_ex (\<lambda>p. inlinable (term_name p) \<noteq> None) (rparts r) \<and>
      \<not> list_ex (\<lambda>j. j \<noteq> i \<and> rname (rules ! j) = rname r) [0..<length rules])"

text \<open>The table after the rounds for the indices below \<open>k\<close>.\<close>

fun inlinable_upto :: "BRule list \<Rightarrow> BTerm list \<Rightarrow> nat \<Rightarrow> (string \<rightharpoonup> BRule)" where
  "inlinable_upto rules preserve 0 = Map.empty"
| "inlinable_upto rules preserve (Suc k) =
     (let inlinable = inlinable_upto rules preserve k in
      if inline_test rules preserve inlinable k
      then inlinable(term_name (rname (rules ! k)) \<mapsto> rules ! k)
      else inlinable)"

text \<open>The rule at index \<open>i\<close> is selected when its round stores it in the table.\<close>

definition selected :: "BRule list \<Rightarrow> BTerm list \<Rightarrow> nat \<Rightarrow> bool" where
  "selected rules preserve i =
     (i < length rules \<and> inline_test rules preserve (inlinable_upto rules preserve i) i)"

text \<open>
  The condition in the words of the specification: not tagged, no direct self-recursion,
  fewer than three terms, not to be preserved, and of length 1 or with no other rule under
  the same skip that uses its left-hand side.
\<close>

definition spec_inlinable :: "BRule list \<Rightarrow> BTerm list \<Rightarrow> nat \<Rightarrow> bool" where
  "spec_inlinable rules preserve i =
     (let r = rules ! i in
      \<not> interesting (rname r) \<and> rname r \<notin> set (rparts r) \<and> length (rparts r) < 3 \<and>
      rname r \<notin> set preserve \<and>
      (length (rparts r) = 1 \<or>
       \<not> list_ex (\<lambda>j. j \<noteq> i \<and> skip (rules ! j) = skip r \<and> rname r \<in> set (rparts (rules ! j)))
            [0..<length rules]))"

text \<open>Two grammars: \<open>A -> x | y\<close>, and \<open>B -> x y\<close> used by \<open>S -> B\<close> under the same skip.\<close>

definition ex_rule2 :: "string \<Rightarrow> nat \<Rightarrow> BTerm list \<Rightarrow> BRule" where
  "ex_rule2 n i ps = \<lparr>rname = ex_sym n i, rparts = ps, skip = ex_sym ''%noskip'' 0,
     isRepeatLeaf = False\<rparr>"

definition ex_alts :: "BRule list" where
  "ex_alts = [ex_rule2 ''A'' 2 [ex_sym ''x'' 1], ex_rule2 ''A'' 2 [ex_sym ''y'' 3]]"

definition ex_used :: "BRule list" where
  "ex_used = [ex_rule2 ''B'' 2 [ex_sym ''x'' 1, ex_sym ''y'' 3], ex_rule2 ''S'' 4 [ex_sym ''B'' 2]]"

subsection \<open>Which rules a pass selects\<close>

lemma inlinable_upto_dom:
  "k \<le> length rules \<Longrightarrow>
   inlinable_upto rules preserve k n \<noteq> None \<longleftrightarrow>
     (\<exists>j<k. selected rules preserve j \<and> term_name (rname (rules ! j)) = n)"
proof (induction k)
  case 0
  then show ?case by simp
next
  case (Suc k)
  then have IH: "inlinable_upto rules preserve k n \<noteq> None \<longleftrightarrow>
     (\<exists>j<k. selected rules preserve j \<and> term_name (rname (rules ! j)) = n)"
    and k: "k < length rules" by simp_all
  have sel: "selected rules preserve k = inline_test rules preserve (inlinable_upto rules preserve k) k"
    using k by (simp add: selected_def)
  show ?case
  proof (cases "inline_test rules preserve (inlinable_upto rules preserve k) k")
    case True
    then have "inlinable_upto rules preserve (Suc k) n \<noteq> None \<longleftrightarrow>
        term_name (rname (rules ! k)) = n \<or> inlinable_upto rules preserve k n \<noteq> None"
      by (auto simp: Let_def)
    with IH sel True show ?thesis by (auto simp: less_Suc_eq)
  next
    case False
    then have "inlinable_upto rules preserve (Suc k) n = inlinable_upto rules preserve k n"
      by (simp add: Let_def)
    with IH sel False show ?thesis by (auto simp: less_Suc_eq)
  qed
qed

text \<open>
  Claim C6, as stated, fails in both directions. Of two alternatives \<open>A -> x\<close> and
  \<open>A -> y\<close> the first meets the stated condition and is not selected (another rule has
  the same left-hand side). The two-term rule \<open>B -> x y\<close>, used by \<open>S -> B\<close> under the
  same skip, does not meet the stated condition and is selected (the code asks that no
  rule under a different skip uses the left-hand side).
\<close>

theorem inlineRules_selection_counterexample:
  "spec_inlinable ex_alts [] 0 \<and> \<not> selected ex_alts [] 0 \<and>
   \<not> spec_inlinable ex_used [] 0 \<and> selected ex_used [] 0"
  by (simp add: spec_inlinable_def selected_def inline_test_def ex_alts_def ex_used_def
      ex_rule2_def ex_sym_def Let_def upt_rec [of 0] upt_rec [of 1] upt_rec [of 2] less_Suc_eq)

text \<open>
  Claim C6, amended. In a pass of \<open>inlineRules\<close> the rule at index \<open>i\<close> is selected as
  inlinable exactly when its left-hand side is not tagged (interesting), its parts do not
  contain its own left-hand side, its body has fewer than 3 terms, its left-hand side is
  not in the preserve set, its body has length 1 or every rule that uses its left-hand
  side has the same skip as it, none of its parts bears the name of a rule selected
  earlier in the pass, and no other rule has its left-hand side.
\<close>

theorem inlineRules_selection:
  "selected rules preserve i \<longleftrightarrow>
     i < length rules \<and>
     \<not> interesting (rname (rules ! i)) \<and>
     rname (rules ! i) \<notin> set (rparts (rules ! i)) \<and>
     length (rparts (rules ! i)) < 3 \<and>
     rname (rules ! i) \<notin> set preserve \<and>
     (length (rparts (rules ! i)) = 1 \<or>
      (\<forall>other\<in>set rules. rname (rules ! i) \<in> set (rparts other) \<longrightarrow> skip other = skip (rules ! i))) \<and>
     (\<forall>p\<in>set (rparts (rules ! i)).
        \<not> (\<exists>j<i. selected rules preserve j \<and> term_name (rname (rules ! j)) = term_name p)) \<and>
     (\<forall>j<length rules. j \<noteq> i \<longrightarrow> rname (rules ! j) \<noteq> rname (rules ! i))"
proof (cases "i < length rules")
  case False
  then show ?thesis by (simp add: selected_def)
next
  case True
  then have dom: "\<And>n. inlinable_upto rules preserve i n \<noteq> None \<longleftrightarrow>
     (\<exists>j<i. selected rules preserve j \<and> term_name (rname (rules ! j)) = n)"
    by (intro inlinable_upto_dom) simp
  have parts: "list_ex (\<lambda>p. inlinable_upto rules preserve i (term_name p) \<noteq> None) (rparts (rules ! i)) \<longleftrightarrow>
      (\<exists>p\<in>set (rparts (rules ! i)).
         \<exists>j<i. selected rules preserve j \<and> term_name (rname (rules ! j)) = term_name p)"
    unfolding list_ex_iff using dom by blast
  have uniq: "list_ex (\<lambda>j. j \<noteq> i \<and> rname (rules ! j) = rname (rules ! i)) [0..<length rules] \<longleftrightarrow>
      (\<exists>j<length rules. j \<noteq> i \<and> rname (rules ! j) = rname (rules ! i))"
    by (auto simp: list_ex_iff)
  have "selected rules preserve i = inline_test rules preserve (inlinable_upto rules preserve i) i"
    using True by (simp add: selected_def)
  also have "\<dots> \<longleftrightarrow>
     \<not> interesting (rname (rules ! i)) \<and>
     rname (rules ! i) \<notin> set (rparts (rules ! i)) \<and>
     length (rparts (rules ! i)) < 3 \<and>
     rname (rules ! i) \<notin> set preserve \<and>
     (length (rparts (rules ! i)) = 1 \<or>
      (\<forall>other\<in>set rules. rname (rules ! i) \<in> set (rparts other) \<longrightarrow> skip other = skip (rules ! i))) \<and>
     (\<forall>p\<in>set (rparts (rules ! i)).
        \<not> (\<exists>j<i. selected rules preserve j \<and> term_name (rname (rules ! j)) = term_name p)) \<and>
     (\<forall>j<length rules. j \<noteq> i \<longrightarrow> rname (rules ! j) \<noteq> rname (rules ! i))"
    unfolding inline_test_def Let_def parts uniq
    by (auto simp: list_all_iff)
  finally show ?thesis using True by simp
qed

text \<open>The single rule \<open>B -> x y\<close> of a grammar is selected.\<close>

theorem inlineRules_selection_witness:
  "selected [ex_rule2 ''B'' 2 [ex_sym ''x'' 1, ex_sym ''y'' 3]] [] 0"
  using inlineRules_selection [of "[ex_rule2 ''B'' 2 [ex_sym ''x'' 1, ex_sym ''y'' 3]]" "[]" 0]
  by (simp add: ex_rule2_def ex_sym_def)

subsection \<open>TokenSet.tokenizer\<close>

text \<open>
  The method compiles the start state of the token automaton, refuses a start state that
  accepts, and serializes the automaton. \<open>State.compile\<close> and \<open>State.toArray\<close> belong to
  the module \<open>./token\<close>, which is not among the sources: the compiled state is given, with
  the list \<open>accepting\<close> that the method reads, and \<open>toArray\<close> is a parameter. Of a rule
  declaration the method reads the name and the start position.

  \<open>Input.raise\<close> throws a \<open>SyntaxError\<close> whose message is the text followed by the
  position; the error value keeps the two apart. The position is an argument of \<open>raise\<close>:
  \<open>this.rules.find(...)!.start\<close> is evaluated before the call, and reading \<open>start\<close> of
  \<open>undefined\<close> raises a \<open>TypeError\<close>.
\<close>

record RuleDeclaration =
  decl_name :: string
  decl_start :: nat

record 'x CompiledState =
  accepting :: "BTerm list"
  automaton :: 'x

datatype build_error = SyntaxError string nat | UndefinedRead

definition zero_length_message :: "string \<Rightarrow> string" where
  "zero_length_message n = ''Grammar contains zero-length tokens (in '' @ [CHR 0x27] @ n @ [CHR 0x27] @ '')''"

definition tokenizer ::
  "RuleDeclaration list \<Rightarrow> 'x CompiledState \<Rightarrow> ('x CompiledState \<Rightarrow> 'm \<Rightarrow> 'p \<Rightarrow> 'd) \<Rightarrow> 'm \<Rightarrow> 'p \<Rightarrow>
     build_error + 'd" where
  "tokenizer rules startState toArray tokenMasks tokenPrec =
     (if length (accepting startState) \<noteq> 0 then
        (case find (\<lambda>r. decl_name r = term_name (accepting startState ! 0)) rules of
           None \<Rightarrow> Inl UndefinedRead
         | Some r \<Rightarrow>
             Inl (SyntaxError (zero_length_message (term_name (accepting startState ! 0)))
                    (decl_start r)))
      else Inr (toArray startState tokenMasks tokenPrec))"

text \<open>
  A token rule \<open>tok<x> { x* }\<close> used as \<open>tok<"a">\<close>: \<open>getToken\<close> names the terminal by the
  text of the expression, \<open>tok<"a">\<close>, and no rule declaration has that name.
\<close>

definition ex_decls :: "RuleDeclaration list" where
  "ex_decls = [\<lparr>decl_name = ''tok'', decl_start = 10\<rparr>]"

definition ex_start :: "unit CompiledState" where
  "ex_start = \<lparr>accepting = [ex_sym (''tok<'' @ [CHR 0x22] @ ''a'' @ [CHR 0x22] @ ''>'') 3],
     automaton = ()\<rparr>"

subsection \<open>Zero-length tokens\<close>

text \<open>
  What the method does by cases: the fatal error naming the token when the start state
  accepts and a rule declaration bears the name of the first accepted term; the
  serialized automaton when the start state does not accept.
\<close>

lemma tokenizer_zero_length:
  "accepting s \<noteq> [] \<Longrightarrow> find (\<lambda>r. decl_name r = term_name (hd (accepting s))) rules = Some r \<Longrightarrow>
   tokenizer rules s toArray tm pr =
     Inl (SyntaxError (zero_length_message (term_name (hd (accepting s)))) (decl_start r))"
  by (simp add: tokenizer_def hd_conv_nth)

lemma tokenizer_returns:
  "accepting s = [] \<Longrightarrow> tokenizer rules s toArray tm pr = Inr (toArray s tm pr)"
  by (simp add: tokenizer_def)

text \<open>
  Claim C9 on the code: an accepting start state whose first accepted term is not named
  like a rule declaration (a token rule with arguments) ends in the \<open>TypeError\<close> of the
  failed lookup, not in the error that names the token.
\<close>

theorem tokenizer_parameterized_token:
  "tokenizer ex_decls ex_start (\<lambda>s m p. ()) () () = Inl UndefinedRead"
  by (simp add: tokenizer_def ex_decls_def ex_start_def ex_sym_def)

end
